theory Spec2Isabelle
  imports Complex_Main
begin

section \<open>JavaScript values\<close>

text \<open>
  A JavaScript string is a sequence of UTF-16 code units. Numbers are IEEE doubles in the
  program; the model takes them as reals (no claim below depends on rounding), and keeps the
  result of \<open>parseInt\<close> as an exact integer or \<open>NaN\<close>: the program has the double nearest
  to that integer, which is the integer itself up to \<open>2 ^ 53\<close>.
\<close>

type_synonym jsstring = "nat list"

abbreviation lit :: "string \<Rightarrow> jsstring" where
  "lit s \<equiv> map of_char s"

text \<open>
  The raw configuration is the \<open>swipe_nav\<close> section of the dashboard configuration, which
  is JSON data: null, booleans, numbers, strings, arrays and objects (an object lists its
  own properties in order; a property that is absent reads as \<open>undefined\<close>, here \<open>None\<close>).
\<close>

datatype jsval =
    JNull
  | JBool bool
  | JNum real
  | JStr jsstring
  | JArr "jsval list"
  | JObj "(jsstring \<times> jsval) list"

definition getProp :: "jsval \<Rightarrow> jsstring \<Rightarrow> jsval option" where
  "getProp v k = (case v of JObj kvs \<Rightarrow> map_of kvs k | _ \<Rightarrow> None)"

datatype jsint = NaN | IntVal int

datatype LogLevel = VERBOSE | DEBUG | INFO | WARN | ERROR

datatype error =
    UnhandledCase
  | TypeError

text \<open>CSS values written by the gesture engine, kept structured instead of as text.\<close>

datatype css =
    CssEmpty
  | CssText string
  | TransitionTransform real string
  | TransitionTransformOpacity real string
  | TranslatePx real

text \<open>
  A DOM element is identified by a number. A selector is evaluated in the document, in the
  light tree of an element or in the shadow root of an element.
\<close>

datatype parentNode = DocumentNode | ElementNode nat | ShadowRootOf nat

text \<open>
  What a handler does besides changing its own state: calls of the logger (with the level of
  the call), calls of callbacks (by the identity of the callback or of the object that holds
  it), writes to the style of the view and of the layout node, the synthetic click on a
  tab, timers, and what is done to the \<open>MutationObserver\<close> that a resolver holds for a
  child: \<open>disconnect()\<close> and \<open>observe(target)\<close>.
\<close>

datatype effect =
    Logged LogLevel string
  | Called nat
  | ObserverDisconnected nat nat
  | ObserverObserves nat nat parentNode
  | SetViewTransition css
  | SetViewTransform css
  | SetViewOpacity string
  | SetLayoutOverflow string
  | DispatchClick nat
  | PreventDefault
  | SetTimeout real "effect list"

section \<open>Configuration model\<close>

subsection \<open>The schema\<close>

definition animateVariants :: "jsstring list" where
  "animateVariants = [lit ''none'', lit ''swipe'', lit ''fade'', lit ''flip'']"

definition loggerLevelVariants :: "jsstring list" where
  "loggerLevelVariants = [lit ''verbose'', lit ''debug'', lit ''info'', lit ''warn'', lit ''error'']"

definition isLiteralOf :: "jsstring list \<Rightarrow> jsval \<Rightarrow> bool" where
  "isLiteralOf vs v = (case v of JStr s \<Rightarrow> s \<in> set vs | _ \<Rightarrow> False)"

definition isNumber :: "jsval \<Rightarrow> bool" where
  "isNumber v = (case v of JNum r \<Rightarrow> True | _ \<Rightarrow> False)"

definition isBoolean :: "jsval \<Rightarrow> bool" where
  "isBoolean v = (case v of JBool b \<Rightarrow> True | _ \<Rightarrow> False)"

text \<open>\<open>.optional()\<close>: an absent property is accepted, a present one (null too) is checked.\<close>

definition optional :: "(jsval \<Rightarrow> bool) \<Rightarrow> jsval option \<Rightarrow> bool" where
  "optional p f = (case f of None \<Rightarrow> True | Some v \<Rightarrow> p v)"

text \<open>
  \<open>SwipeNavigationConfigSchema.safeParse(obj).success\<close>: \<open>z.object\<close> accepts objects only
  (not null, not arrays) and ignores unknown keys; \<open>z.coerce.string()\<close> accepts every value.
\<close>

definition instanceOfSwipeNavigationConfig :: "jsval \<Rightarrow> bool" where
  "instanceOfSwipeNavigationConfig obj =
     (case obj of
        JObj kvs \<Rightarrow>
          optional (isLiteralOf animateVariants) (getProp obj (lit ''animate'')) \<and>
          optional isNumber (getProp obj (lit ''animate_duration'')) \<and>
          optional isBoolean (getProp obj (lit ''enable'')) \<and>
          optional isBoolean (getProp obj (lit ''enable_mouse_swipe'')) \<and>
          optional (isLiteralOf loggerLevelVariants) (getProp obj (lit ''logger_level'')) \<and>
          optional isBoolean (getProp obj (lit ''prevent_default'')) \<and>
          optional isBoolean (getProp obj (lit ''skip_hidden'')) \<and>
          optional (\<lambda>v. True) (getProp obj (lit ''skip_tabs'')) \<and>
          optional isNumber (getProp obj (lit ''swipe_amount'')) \<and>
          optional isBoolean (getProp obj (lit ''wrap''))
      | _ \<Rightarrow> False)"

subsection \<open>The settings snapshot\<close>

text \<open>
  \<open>animate\<close> is a string at run time; the type that restricts it to four literals exists at
  compile time only, so the model keeps the string.
\<close>

record Config =
  animate :: jsstring
  animate_duration :: real
  enable :: bool
  enable_mouse_swipe :: bool
  logger_level :: LogLevel
  prevent_default :: bool
  skip_hidden :: bool
  skip_tabs :: "jsint list"
  swipe_amount :: real
  wrap :: bool

definition newConfig :: Config where
  "newConfig =
     \<lparr> animate = lit ''none'', animate_duration = 200, enable = True,
       enable_mouse_swipe = False, logger_level = WARN, prevent_default = False,
       skip_hidden = True, skip_tabs = [], swipe_amount = 0.15, wrap = True \<rparr>"

subsection \<open>Parsing \<open>skip_tabs\<close>\<close>

text \<open>The code units matched by \<open>\s\<close>, which are also the ones \<open>parseInt\<close> trims.\<close>

definition isWhiteSpace :: "nat \<Rightarrow> bool" where
  "isWhiteSpace c =
     (c \<in> set [9, 10, 11, 12, 13, 32, 160, 5760, 8232, 8233, 8239, 8287, 12288, 65279]
      \<or> (8192 \<le> c \<and> c \<le> 8202))"

text \<open>\<open>.replace(/\s+/g, "")\<close>\<close>

definition removeWhiteSpace :: "jsstring \<Rightarrow> jsstring" where
  "removeWhiteSpace s = filter (\<lambda>c. \<not> isWhiteSpace c) s"

text \<open>\<open>.split(",")\<close>: the pieces between the separators; the empty string gives one empty piece.\<close>

fun split :: "nat \<Rightarrow> jsstring \<Rightarrow> jsstring list" where
  "split sep [] = [[]]"
| "split sep (c # cs) =
     (if c = sep then [] # split sep cs
      else (case split sep cs of
              p # ps \<Rightarrow> (c # p) # ps
            | [] \<Rightarrow> [[c]]))"

definition digitValue :: "nat \<Rightarrow> nat option" where
  "digitValue c =
     (if 48 \<le> c \<and> c \<le> 57 then Some (c - 48)
      else if 97 \<le> c \<and> c \<le> 122 then Some (c - 87)
      else if 65 \<le> c \<and> c \<le> 90 then Some (c - 55)
      else None)"

definition isDigitOf :: "nat \<Rightarrow> nat \<Rightarrow> bool" where
  "isDigitOf R c = (case digitValue c of Some d \<Rightarrow> d < R | None \<Rightarrow> False)"

definition digitsValue :: "nat \<Rightarrow> jsstring \<Rightarrow> nat" where
  "digitsValue R Z =
     foldl (\<lambda>acc c. acc * R + (case digitValue c of Some d \<Rightarrow> d | None \<Rightarrow> 0)) 0 Z"

text \<open>
  \<open>parseInt(item)\<close> without a radix: leading white space is trimmed, a sign is read, a
  prefix \<open>0x\<close> or \<open>0X\<close> selects radix 16, else the radix is 10; the longest prefix of
  digits is the value and what follows is ignored; no digit at all gives \<open>NaN\<close>.
\<close>

definition parseInt :: "jsstring \<Rightarrow> jsint" where
  "parseInt inputString =
     (let S = dropWhile isWhiteSpace inputString;
          sign = (if S \<noteq> [] \<and> hd S = 45 then - 1 else (1::int));
          S1 = (if S \<noteq> [] \<and> (hd S = 43 \<or> hd S = 45) then tl S else S);
          hex = (take 2 S1 = lit ''0x'' \<or> take 2 S1 = lit ''0X'');
          R = (if hex then 16 else 10);
          S2 = (if hex then drop 2 S1 else S1);
          Z = takeWhile (isDigitOf R) S2
      in if Z = [] then NaN else IntVal (sign * int (digitsValue R Z)))"

fun join :: "jsstring \<Rightarrow> jsstring list \<Rightarrow> jsstring" where
  "join sep [] = []"
| "join sep [p] = p"
| "join sep (p # q # ps) = p @ sep @ join sep (q # ps)"

text \<open>
  \<open>String(v)\<close>. The text of a number is the runtime's (\<open>Number::toString\<close>) and is a
  parameter; an array is its elements joined by commas, a null element giving the empty
  string.
\<close>

fun toString :: "(real \<Rightarrow> jsstring) \<Rightarrow> jsval \<Rightarrow> jsstring" where
  "toString numberToString JNull = lit ''null''"
| "toString numberToString (JBool b) = (if b then lit ''true'' else lit ''false'')"
| "toString numberToString (JNum r) = numberToString r"
| "toString numberToString (JStr s) = s"
| "toString numberToString (JArr vs) =
     join (lit '','')
       (map (\<lambda>v. if v = JNull then [] else toString numberToString v) vs)"
| "toString numberToString (JObj kvs) = lit ''[object Object]''"

definition parseSkipTabs :: "(real \<Rightarrow> jsstring) \<Rightarrow> jsval \<Rightarrow> jsint list" where
  "parseSkipTabs numberToString v =
     map parseInt (split 44 (removeWhiteSpace (toString numberToString v)))"

subsection \<open>\<open>Config.parseConfig\<close>\<close>

text \<open>
  The \<open>switch\<close> over \<open>rawConfig.logger_level\<close> (strict equality with each case), applied to
  the value of the property and the level set so far.
\<close>

definition loggerLevelSwitch :: "jsval option \<Rightarrow> LogLevel \<Rightarrow> error + LogLevel" where
  "loggerLevelSwitch v current =
     (case v of
        None \<Rightarrow> Inr current
      | Some JNull \<Rightarrow> Inr current
      | Some (JStr s) \<Rightarrow>
          if s = lit ''verbose'' then Inr VERBOSE
          else if s = lit ''debug'' then Inr DEBUG
          else if s = lit ''info'' then Inr INFO
          else if s = lit ''warn'' then Inr WARN
          else if s = lit ''error'' then Inr ERROR
          else Inl UnhandledCase
      | Some _ \<Rightarrow> Inl UnhandledCase)"

text \<open>
  The assignments guarded by \<open>!= null\<close>. After validation a present, non-null value has the
  type of its field; the last case of each function is excluded by the schema.
\<close>

definition stringField :: "jsval option \<Rightarrow> jsstring \<Rightarrow> jsstring" where
  "stringField v d = (case v of Some (JStr s) \<Rightarrow> s | _ \<Rightarrow> d)"

definition numberField :: "jsval option \<Rightarrow> real \<Rightarrow> real" where
  "numberField v d = (case v of Some (JNum r) \<Rightarrow> r | _ \<Rightarrow> d)"

definition booleanField :: "jsval option \<Rightarrow> bool \<Rightarrow> bool" where
  "booleanField v d = (case v of Some (JBool b) \<Rightarrow> b | _ \<Rightarrow> d)"

definition parseConfig ::
  "(real \<Rightarrow> jsstring) \<Rightarrow> jsval \<Rightarrow> error + (Config option \<times> effect list)" where
  "parseConfig numberToString rawConfig =
     (if \<not> instanceOfSwipeNavigationConfig rawConfig
      then Inr (None, [Logged ERROR ''Found invalid configuration.''])
      else
        (case loggerLevelSwitch (getProp rawConfig (lit ''logger_level'')) (logger_level newConfig) of
           Inl e \<Rightarrow> Inl e
         | Inr level \<Rightarrow>
             Inr (Some
               \<lparr> animate = stringField (getProp rawConfig (lit ''animate'')) (animate newConfig),
                 animate_duration =
                   numberField (getProp rawConfig (lit ''animate_duration'')) (animate_duration newConfig),
                 enable = booleanField (getProp rawConfig (lit ''enable'')) (enable newConfig),
                 enable_mouse_swipe =
                   booleanField (getProp rawConfig (lit ''enable_mouse_swipe'')) (enable_mouse_swipe newConfig),
                 logger_level = level,
                 prevent_default =
                   booleanField (getProp rawConfig (lit ''prevent_default'')) (prevent_default newConfig),
                 skip_hidden = booleanField (getProp rawConfig (lit ''skip_hidden'')) (skip_hidden newConfig),
                 skip_tabs =
                   (case getProp rawConfig (lit ''skip_tabs'') of
                      None \<Rightarrow> skip_tabs newConfig
                    | Some JNull \<Rightarrow> skip_tabs newConfig
                    | Some v \<Rightarrow> parseSkipTabs numberToString v),
                 swipe_amount =
                   (case getProp rawConfig (lit ''swipe_amount'') of
                      Some (JNum r) \<Rightarrow> r / 100
                    | _ \<Rightarrow> swipe_amount newConfig),
                 wrap = booleanField (getProp rawConfig (lit ''wrap'')) (wrap newConfig) \<rparr>, [])))"

subsection \<open>\<open>Config.readConfig\<close> and the observers\<close>

text \<open>
  The static fields of \<open>Config\<close>. A \<open>ConfigObserver\<close> is an object holding a callback; it is
  identified by a number, and \<open>Called n\<close> records a call of the callback of observer \<open>n\<close>.
  The type \<open>'r\<close> is what \<open>rawConfig\<close> stands for: for one read taken alone, the content
  that the kept raw value has when the read runs (\<open>jsval\<close>); for reads that follow one
  another, the raw value as the field keeps it, which for an object is a reference
  (\<open>rawValue\<close> below).
\<close>

type_synonym ConfigObserver = nat

record 'r ConfigStatics =
  currentConfig :: Config
  rawConfig :: 'r
  configObservers :: "ConfigObserver list"

definition initialStatics :: "jsval ConfigStatics" where
  "initialStatics = \<lparr> currentConfig = newConfig, rawConfig = JNull, configObservers = [] \<rparr>"

definition registerConfigObserver :: "ConfigObserver \<Rightarrow> 'r ConfigStatics \<Rightarrow> 'r ConfigStatics" where
  "registerConfigObserver obs st = st\<lparr>configObservers := configObservers st @ [obs]\<rparr>"

definition unregisterConfigObserver ::
  "ConfigObserver \<Rightarrow> 'r ConfigStatics \<Rightarrow> 'r ConfigStatics \<times> effect list" where
  "unregisterConfigObserver obs st =
     (if obs \<in> set (configObservers st)
      then (st\<lparr>configObservers := remove1 obs (configObservers st)\<rparr>, [])
      else (st, [Logged ERROR ''Internal error while unregistering a configObserver: not found.'']))"

text \<open>
  \<open>getRawConfigOrNull\<close> polls for the configuration container, once a second for fifteen
  seconds. Its argument is what the polls found in turn (\<open>None\<close>: no container yet; else the
  \<open>swipe_nav\<close> property of the container, \<open>None\<close> when it is absent).
\<close>

definition getRawConfigOrNull :: "jsval option option list \<Rightarrow> jsval \<times> effect list" where
  "getRawConfigOrNull polls =
     (case filter (\<lambda>p. p \<noteq> None) polls of
        Some swipe_nav # rest \<Rightarrow>
          ((case swipe_nav of None \<Rightarrow> JObj [] | Some JNull \<Rightarrow> JObj [] | Some v \<Rightarrow> v), [])
      | _ \<Rightarrow> (JNull, [Logged ERROR ''Can't find dashboard configuration'']))"

text \<open>
  \<open>readConfig\<close> from the point where the raw value has been fetched; from there on it runs
  without interruption. \<open>JSON.stringify\<close> belongs to the runtime: its two uses, on the raw
  value and on a \<open>Config\<close>, are parameters. The result is the new static state and what was
  done, in order; \<open>Inl\<close> is an exception.
\<close>

definition readConfig ::
  "(jsval \<Rightarrow> 's) \<Rightarrow> (Config \<Rightarrow> 's) \<Rightarrow> (real \<Rightarrow> jsstring) \<Rightarrow>
   jsval ConfigStatics \<Rightarrow> jsval \<Rightarrow> error + (jsval ConfigStatics \<times> effect list)" where
  "readConfig stringifyRaw stringifyConfig numberToString st raw =
     (if stringifyRaw raw = stringifyRaw (rawConfig st)
      then Inr (st, [Logged DEBUG ''Attempting to read config...'', Logged DEBUG ''Config is identical.''])
      else
        (case parseConfig numberToString raw of
           Inl e \<Rightarrow> Inl e
         | Inr (None, logs) \<Rightarrow>
             Inr (st\<lparr>rawConfig := raw\<rparr>, Logged DEBUG ''Attempting to read config...'' # logs)
         | Inr (Some c, logs) \<Rightarrow>
             if stringifyConfig c = stringifyConfig (currentConfig st)
             then Inr (st\<lparr>rawConfig := raw\<rparr>,
                       Logged DEBUG ''Attempting to read config...'' # logs
                         @ [Logged DEBUG ''Config is equivalent.''])
             else Inr (st\<lparr>rawConfig := raw, currentConfig := c\<rparr>,
                       Logged DEBUG ''Attempting to read config...'' # logs
                         @ map Called (configObservers st))))"

subsection \<open>The raw value between two reads\<close>

text \<open>
  \<open>Config.rawConfig = rawConfig\<close> keeps the fetched value itself, not a copy of it, and the
  next read serialises what that value holds by then. What \<open>getRawConfigOrNull\<close> returns
  is \<open>null\<close>, the object \<open>{}\<close> that it builds itself, or the \<open>swipe_nav\<close> property of the
  host's configuration container: a primitive value, or an object of the host. Nobody can
  change the first ones (\<open>Constant\<close>); an object of the host is known by its identity
  (\<open>HostObject\<close>), and the host may change its content between two reads.
\<close>

datatype rawValue = Constant jsval | HostObject nat

text \<open>The content of every object of the host at one time.\<close>

type_synonym hostObjects = "nat \<Rightarrow> jsval"

fun valueOf :: "hostObjects \<Rightarrow> rawValue \<Rightarrow> jsval" where
  "valueOf host (Constant v) = v"
| "valueOf host (HostObject a) = host a"

definition initialStaticsOnHost :: "rawValue ConfigStatics" where
  "initialStaticsOnHost =
     \<lparr> currentConfig = newConfig, rawConfig = Constant JNull, configObservers = [] \<rparr>"

text \<open>
  \<open>readConfig\<close> once more, with the raw values as the program holds them and the content
  of the host's objects when the read runs: both uses of \<open>JSON.stringify\<close> on a raw value
  and \<open>parseConfig\<close> read the content of that time, and the field keeps the fetched value.
\<close>

definition readConfigOnHost ::
  "(jsval \<Rightarrow> 's) \<Rightarrow> (Config \<Rightarrow> 's) \<Rightarrow> (real \<Rightarrow> jsstring) \<Rightarrow> hostObjects \<Rightarrow>
   rawValue ConfigStatics \<Rightarrow> rawValue \<Rightarrow> error + (rawValue ConfigStatics \<times> effect list)" where
  "readConfigOnHost stringifyRaw stringifyConfig numberToString host st raw =
     (if stringifyRaw (valueOf host raw) = stringifyRaw (valueOf host (rawConfig st))
      then Inr (st, [Logged DEBUG ''Attempting to read config...'', Logged DEBUG ''Config is identical.''])
      else
        (case parseConfig numberToString (valueOf host raw) of
           Inl e \<Rightarrow> Inl e
         | Inr (None, logs) \<Rightarrow>
             Inr (st\<lparr>rawConfig := raw\<rparr>, Logged DEBUG ''Attempting to read config...'' # logs)
         | Inr (Some c, logs) \<Rightarrow>
             if stringifyConfig c = stringifyConfig (currentConfig st)
             then Inr (st\<lparr>rawConfig := raw\<rparr>,
                       Logged DEBUG ''Attempting to read config...'' # logs
                         @ [Logged DEBUG ''Config is equivalent.''])
             else Inr (st\<lparr>rawConfig := raw, currentConfig := c\<rparr>,
                       Logged DEBUG ''Attempting to read config...'' # logs
                         @ map Called (configObservers st))))"

text \<open>The static fields as one read sees them: the kept raw value read at that time.\<close>

definition staticsAt :: "hostObjects \<Rightarrow> rawValue ConfigStatics \<Rightarrow> jsval ConfigStatics" where
  "staticsAt host st =
     \<lparr> currentConfig = currentConfig st, rawConfig = valueOf host (rawConfig st),
       configObservers = configObservers st \<rparr>"

text \<open>The observers called by a run, in the order of the calls.\<close>

fun notified :: "effect list \<Rightarrow> ConfigObserver list" where
  "notified [] = []"
| "notified (Called n # es) = n # notified es"
| "notified (e # es) = notified es"

fun errorsLogged :: "effect list \<Rightarrow> string list" where
  "errorsLogged [] = []"
| "errorsLogged (Logged ERROR m # es) = m # errorsLogged es"
| "errorsLogged (e # es) = errorsLogged es"

section \<open>Gesture and navigation engine\<close>

subsection \<open>The tab strip\<close>

text \<open>
  The node of the tab strip is given by its descendants in document order. Of a descendant
  the engine reads whether it is a \<open>paper-tab\<close> element, whether it has the class
  \<open>iron-selected\<close>, and whether its computed \<open>display\<close> is \<open>none\<close>. A DOM element is an
  object; it is identified by its position among the descendants.
\<close>

record element =
  paperTab :: bool
  ironSelected :: bool
  displayNone :: bool

type_synonym node = "nat \<times> element"

definition descendants :: "element list \<Rightarrow> node list" where
  "descendants els = zip [0..<length els] els"

text \<open>\<open>Array.from(container?.querySelectorAll("paper-tab") ?? [])\<close>\<close>

definition getTabsArray :: "element list option \<Rightarrow> node list" where
  "getTabsArray container =
     (case container of
        None \<Rightarrow> []
      | Some els \<Rightarrow> filter (\<lambda>n. paperTab (snd n)) (descendants els))"

text \<open>\<open>container?.querySelector(".iron-selected")\<close>\<close>

definition getActiveTab :: "element list option \<Rightarrow> node option" where
  "getActiveTab container =
     (case container of
        None \<Rightarrow> None
      | Some els \<Rightarrow> find (\<lambda>n. ironSelected (snd n)) (descendants els))"

fun indexOf :: "'a list \<Rightarrow> 'a \<Rightarrow> int" where
  "indexOf [] x = - 1"
| "indexOf (y # ys) x =
     (if y = x then 0
      else (let i = indexOf ys x in if i = - 1 then - 1 else i + 1))"

subsection \<open>\<open>SwipeManager.#getNextTabIndex\<close>\<close>

text \<open>The two edge tests at the head of the loop body.\<close>

definition wrapIndex :: "Config \<Rightarrow> node list \<Rightarrow> int \<Rightarrow> int" where
  "wrapIndex cfg tabs n =
     (if n = - 1 then (if wrap cfg then int (length tabs) - 1 else - 1)
      else if n = int (length tabs) then (if wrap cfg then 0 else - 1)
      else n)"

text \<open>
  The \<open>do \<dots> while\<close> loop, entered with \<open>nextTabIndex\<close>; one unfolding is one run of the
  body followed by the loop test. The result is the last \<open>nextTabIndex\<close> with the
  \<open>stopReason\<close>. \<open>None\<close> stands for a loop that does not end. Reading the style of
  \<open>tabs[nextTabIndex]\<close> outside the array is a \<open>TypeError\<close>.
\<close>

partial_function (option) nextTabSearch ::
  "Config \<Rightarrow> node list \<Rightarrow> int \<Rightarrow> int \<Rightarrow> int \<Rightarrow> (error + int \<times> string option) option" where
  "nextTabSearch cfg tabs activeTabIndex increment nextTabIndex =
     (let n = wrapIndex cfg tabs (nextTabIndex + increment) in
      if n = activeTabIndex then Some (Inr (n, Some ''Error, no viable tabs found for swiping.''))
      else if n = - 1 then Some (Inr (n, Some ''Edge has been reached and wrap is disabled.''))
      else if IntVal n \<in> set (skip_tabs cfg)
        then nextTabSearch cfg tabs activeTabIndex increment n
      else if skip_hidden cfg then
        (if 0 \<le> n \<and> n < int (length tabs) then
           (if displayNone (snd (tabs ! nat n))
            then nextTabSearch cfg tabs activeTabIndex increment n
            else Some (Inr (n, None)))
         else Some (Inl TypeError))
      else Some (Inr (n, None)))"

text \<open>
  The same loop cut off after \<open>k\<close> runs of its body: \<open>None\<close> when \<open>k\<close> runs were not
  enough. It serves to count the runs.
\<close>

fun nextTabSearchWithin ::
  "nat \<Rightarrow> Config \<Rightarrow> node list \<Rightarrow> int \<Rightarrow> int \<Rightarrow> int \<Rightarrow> (error + int \<times> string option) option" where
  "nextTabSearchWithin 0 cfg tabs activeTabIndex increment nextTabIndex = None"
| "nextTabSearchWithin (Suc k) cfg tabs activeTabIndex increment nextTabIndex =
     (let n = wrapIndex cfg tabs (nextTabIndex + increment) in
      if n = activeTabIndex then Some (Inr (n, Some ''Error, no viable tabs found for swiping.''))
      else if n = - 1 then Some (Inr (n, Some ''Edge has been reached and wrap is disabled.''))
      else if IntVal n \<in> set (skip_tabs cfg)
        then nextTabSearchWithin k cfg tabs activeTabIndex increment n
      else if skip_hidden cfg then
        (if 0 \<le> n \<and> n < int (length tabs) then
           (if displayNone (snd (tabs ! nat n))
            then nextTabSearchWithin k cfg tabs activeTabIndex increment n
            else Some (Inr (n, None)))
         else Some (Inl TypeError))
      else Some (Inr (n, None)))"

text \<open>The index of the active tab, \<open>-1\<close> when there is none among the tabs.\<close>

definition getActiveTabIndex :: "element list option \<Rightarrow> int" where
  "getActiveTabIndex container =
     (case getActiveTab container of
        None \<Rightarrow> - 1
      | Some activeTab \<Rightarrow> indexOf (getTabsArray container) activeTab)"

text \<open>The result is the index returned (\<open>-1\<close>: no target) with the warning logged, if any.\<close>

definition getNextTabIndex ::
  "Config \<Rightarrow> element list option \<Rightarrow> bool \<Rightarrow> (error + int \<times> effect list) option" where
  "getNextTabIndex cfg container directionLeft =
     (let tabs = getTabsArray container;
          activeTabIndex = getActiveTabIndex container
      in if activeTabIndex = - 1
         then Some (Inr (- 1, [Logged WARN ''Can't determine the active tab'']))
         else
           (case nextTabSearch cfg tabs activeTabIndex (if directionLeft then - 1 else 1) activeTabIndex of
              None \<Rightarrow> None
            | Some (Inl e) \<Rightarrow> Some (Inl e)
            | Some (Inr (n, Some stopReason)) \<Rightarrow> Some (Inr (- 1, [Logged WARN stopReason]))
            | Some (Inr (n, None)) \<Rightarrow> Some (Inr (n, []))))"

subsection \<open>Pointer events and the page\<close>

text \<open>
  An entry of \<open>event.composedPath()\<close>: an \<open>Element\<close> with its node name and whether it
  matches the selector list of exceptions, or something else (the document, a shadow root,
  the window).
\<close>

datatype target = Element string bool | NotElement

text \<open>
  A \<open>TouchEvent\<close> carries the client coordinates of its \<open>touches\<close>, a \<open>MouseEvent\<close> its own
  client coordinates; both carry the composed path. \<open>OtherEvent\<close> is an event that passes
  neither \<open>instanceof\<close> test.
\<close>

datatype pointerEvent =
    TouchEvent "(real \<times> real) list" "target list"
  | MouseEvent real real "target list"
  | OtherEvent

text \<open>
  What the handlers read from the page while they run: the width of the screen, whether the
  direction of the root node is \<open>rtl\<close>, whether the resolvers of the view and of the layout
  give a node, and the node of the tab strip.
\<close>

record page =
  screenWidth :: real
  rtl :: bool
  view :: bool
  haAppLayout :: bool
  tabsContainer :: "element list option"

text \<open>The four static fields of \<open>SwipeManager\<close>; \<open>None\<close> is null or undefined.\<close>

record gesture =
  xDown :: "real option"
  yDown :: "real option"
  xDiff :: "real option"
  yDiff :: "real option"

definition noGesture :: gesture where
  "noGesture = \<lparr> xDown = None, yDown = None, xDiff = None, yDiff = None \<rparr>"

text \<open>
  A handler gives what it did and either the exception it threw or its result. A handler
  that throws has not yet written to the four fields.
\<close>

type_synonym 'a outcome = "effect list \<times> (error + 'a)"

subsection \<open>\<open>SwipeManager.#handlePointerStart\<close>\<close>

text \<open>
  The walk along the composed path: the node name of the first element that matches the
  exceptions, unless \<open>HUI-VIEW\<close> comes first.
\<close>

fun exceptionOnPath :: "target list \<Rightarrow> string option" where
  "exceptionOnPath [] = None"
| "exceptionOnPath (NotElement # ts) = exceptionOnPath ts"
| "exceptionOnPath (Element nodeName matchesExceptions # ts) =
     (if nodeName = ''HUI-VIEW'' then None
      else if matchesExceptions then Some nodeName
      else exceptionOnPath ts)"

fun handlePointerStart :: "Config \<Rightarrow> pointerEvent \<Rightarrow> gesture \<Rightarrow> gesture outcome" where
  "handlePointerStart cfg OtherEvent g = ([], Inl UnhandledCase)"
| "handlePointerStart cfg (TouchEvent touches path) g =
     (if enable cfg = False
      then ([Logged DEBUG ''Ignoring touch: Swipe navigation is disabled in the config.''], Inr g)
      else if length touches > 1
      then ([Logged DEBUG ''Ignoring touch: multiple touchpoints detected.''],
            Inr (g\<lparr>xDown := None, yDown := None\<rparr>))
      else
        (case exceptionOnPath path of
           Some nodeName \<Rightarrow> ([Logged DEBUG (''Ignoring touch on '' @ nodeName)], Inr g)
         | None \<Rightarrow>
             (case touches of
                [] \<Rightarrow> ([], Inl TypeError)
              | (clientX, clientY) # rest \<Rightarrow>
                  ([], Inr (g\<lparr>xDown := Some clientX, yDown := Some clientY\<rparr>)))))"
| "handlePointerStart cfg (MouseEvent clientX clientY path) g =
     (if enable cfg = False
      then ([Logged DEBUG ''Ignoring click: Swipe navigation is disabled in the config.''], Inr g)
      else if \<not> enable_mouse_swipe cfg
      then ([Logged DEBUG ''Ignoring click: swiping via mouse is disabled.''],
            Inr (g\<lparr>xDown := None, yDown := None\<rparr>))
      else
        (case exceptionOnPath path of
           Some nodeName \<Rightarrow> ([Logged DEBUG (''Ignoring click on '' @ nodeName)], Inr g)
         | None \<Rightarrow> ([], Inr (g\<lparr>xDown := Some clientX, yDown := Some clientY\<rparr>))))"

subsection \<open>\<open>SwipeManager.#handlePointerMove\<close>\<close>

text \<open>The body of the handler once the pointer position has been read.\<close>

definition trackTo :: "Config \<Rightarrow> page \<Rightarrow> real \<Rightarrow> real \<Rightarrow> gesture \<Rightarrow> gesture outcome" where
  "trackTo cfg pg dx dy g =
     ((if \<not> view pg then [Logged ERROR ''view is null when attempting to change tab.'']
       else if animate cfg = lit ''swipe'' then
         (if haAppLayout pg then [SetLayoutOverflow ''hidden''] else [])
         @ [SetViewTransform
              (TranslatePx (((min \<bar>dx\<bar> 250 - (min \<bar>dx\<bar> 250 * min \<bar>dx\<bar> 250) / 500) / 2) * sgn (- dx)))]
       else [])
      @ (if \<bar>dx\<bar> > \<bar>dy\<bar> \<and> prevent_default cfg then [PreventDefault] else []),
      Inr (g\<lparr>xDiff := Some dx, yDiff := Some dy\<rparr>))"

text \<open>\<open>if (this.#xDown && this.#yDown)\<close>: a coordinate that is null or zero is falsy.\<close>

definition truthy :: "real option \<Rightarrow> bool" where
  "truthy v = (case v of None \<Rightarrow> False | Some x \<Rightarrow> x \<noteq> 0)"

definition handlePointerMove :: "Config \<Rightarrow> page \<Rightarrow> pointerEvent \<Rightarrow> gesture \<Rightarrow> gesture outcome" where
  "handlePointerMove cfg pg event g =
     (if truthy (xDown g) \<and> truthy (yDown g) then
        (case (xDown g, yDown g, event) of
           (Some x0, Some y0, TouchEvent [] path) \<Rightarrow> ([], Inl TypeError)
         | (Some x0, Some y0, TouchEvent ((clientX, clientY) # rest) path) \<Rightarrow>
             trackTo cfg pg (x0 - clientX) (y0 - clientY) g
         | (Some x0, Some y0, MouseEvent clientX clientY path) \<Rightarrow>
             trackTo cfg pg (x0 - clientX) (y0 - clientY) g
         | _ \<Rightarrow> ([], Inl UnhandledCase))
      else ([], Inr g))"

subsection \<open>\<open>SwipeManager.#click\<close>\<close>

text \<open>
  \<open>tabs[index].dispatchEvent(new MouseEvent("click", \<dots>))\<close>, at once or in a timer: a
  \<open>TypeError\<close> when the index is outside the array.
\<close>

definition clickTab :: "node list \<Rightarrow> int \<Rightarrow> unit outcome" where
  "clickTab tabs index =
     (if 0 \<le> index \<and> index < int (length tabs) then ([DispatchClick (nat index)], Inr ())
      else ([], Inl TypeError))"

text \<open>
  The effects of a timer are what its callback does when it fires; the callback of the last
  timer of the \<open>swipe\<close> mode resets the overflow of the layout node if there is one then.
\<close>

definition click :: "Config \<Rightarrow> page \<Rightarrow> int \<Rightarrow> bool \<Rightarrow> unit outcome" where
  "click cfg pg index directionLeft =
     (if index < 0 then ([Logged ERROR ''Invalid tab index''], Inr ())
      else if \<not> view pg then ([Logged ERROR ''view is null when attempting to change tab.''], Inr ())
      else if animate cfg = lit ''none'' then clickTab (getTabsArray (tabsContainer pg)) index
      else
        (let tabs = getTabsArray (tabsContainer pg);
             duration = animate_duration cfg;
             easeIn = SetViewTransition (TransitionTransformOpacity duration ''ease-in'');
             easeOut =
               SetTimeout (duration + 50)
                 [SetViewTransition (TransitionTransformOpacity duration ''ease-out''),
                  SetViewOpacity ''1'', SetViewTransform CssEmpty]
         in if animate cfg = lit ''swipe'' then
              (easeIn # (if haAppLayout pg then [SetLayoutOverflow ''hidden''] else [])
                 @ [SetViewOpacity ''0'',
                    SetViewTransform
                      (TranslatePx (if directionLeft then screenWidth pg / 2 else - (screenWidth pg / 2))),
                    SetTimeout (duration + 10)
                      ([SetViewTransition CssEmpty,
                        SetViewTransform
                          (TranslatePx (if directionLeft then - (screenWidth pg / 2) else screenWidth pg / 2))]
                       @ fst (clickTab tabs index)),
                    easeOut,
                    SetTimeout (duration * 2 + 100) [SetLayoutOverflow []]],
               Inr ())
            else if animate cfg = lit ''fade'' then
              ([easeIn, SetViewOpacity ''0'',
                SetTimeout (duration + 10)
                  (SetViewTransition CssEmpty # fst (clickTab tabs index) @ [SetViewOpacity ''0'']),
                easeOut],
               Inr ())
            else if animate cfg = lit ''flip'' then
              ([easeIn, SetViewTransform (CssText ''rotatey(90deg)''), SetViewOpacity ''0.25'',
                SetTimeout (duration + 10) (SetViewTransition CssEmpty # fst (clickTab tabs index)),
                easeOut],
               Inr ())
            else ([easeIn], Inl UnhandledCase)))"

subsection \<open>\<open>SwipeManager.#handlePointerEnd\<close>\<close>

text \<open>The reset of the view when \<open>resetSwipe\<close> is still true.\<close>

definition resetSwipe :: "Config \<Rightarrow> page \<Rightarrow> effect list" where
  "resetSwipe cfg pg =
     (if view pg \<and> animate cfg = lit ''swipe''
      then SetViewTransition (TransitionTransform 200 ''ease-out'')
           # (if haAppLayout pg then [SetLayoutOverflow ''hidden''] else [])
           @ [SetViewTransform (TranslatePx 0)]
      else [])"

definition handlePointerEnd :: "Config \<Rightarrow> page \<Rightarrow> gesture \<Rightarrow> gesture outcome option" where
  "handlePointerEnd cfg pg g =
     (case (xDiff g, yDiff g) of
        (Some dx, Some dy) \<Rightarrow>
          if \<bar>dx\<bar> < \<bar>dy\<bar>
          then Some (Logged DEBUG ''Swipe ignored, vertical movement.'' # resetSwipe cfg pg, Inr noGesture)
          else if \<bar>dx\<bar> < \<bar>screenWidth pg * swipe_amount cfg\<bar>
          then Some (Logged DEBUG ''Swipe ignored, too short.'' # resetSwipe cfg pg, Inr noGesture)
          else
            (let directionLeft = (dx < 0);
                 detected =
                   Logged INFO (''Swipe detected, changing tab to the ''
                                 @ (if directionLeft then ''left'' else ''right'') @ ''.'')
             in case getNextTabIndex cfg (tabsContainer pg)
                       (if rtl pg then \<not> directionLeft else directionLeft) of
                  None \<Rightarrow> None
                | Some (Inl e) \<Rightarrow> Some ([detected], Inl e)
                | Some (Inr (nextTabIndex, warned)) \<Rightarrow>
                    if nextTabIndex \<ge> 0 then
                      (case click cfg pg nextTabIndex directionLeft of
                         (done, Inl e) \<Rightarrow> Some (detected # warned @ done, Inl e)
                       | (done, Inr u) \<Rightarrow> Some (detected # warned @ done, Inr noGesture))
                    else Some (detected # warned @ resetSwipe cfg pg, Inr noGesture))
      | _ \<Rightarrow> Some (resetSwipe cfg pg, Inr noGesture))"

subsection \<open>The listeners registered by \<open>SwipeManager.init\<close>\<close>

datatype domEvent =
    Touchstart pointerEvent
  | Touchmove pointerEvent
  | Touchend
  | Mousedown pointerEvent
  | Mousemove pointerEvent
  | Mouseup

text \<open>
  \<open>mouseListeners\<close> tells whether mouse swipe was enabled when \<open>init\<close> ran, that is whether
  the listeners of \<open>mousemove\<close> and \<open>mouseup\<close> exist.
\<close>

fun deliver :: "bool \<Rightarrow> Config \<Rightarrow> page \<Rightarrow> domEvent \<Rightarrow> gesture \<Rightarrow> gesture outcome option" where
  "deliver mouseListeners cfg pg (Touchstart event) g = Some (handlePointerStart cfg event g)"
| "deliver mouseListeners cfg pg (Touchmove event) g = Some (handlePointerMove cfg pg event g)"
| "deliver mouseListeners cfg pg Touchend g = handlePointerEnd cfg pg g"
| "deliver mouseListeners cfg pg (Mousedown event) g = Some (handlePointerStart cfg event g)"
| "deliver mouseListeners cfg pg (Mousemove event) g =
     (if mouseListeners then Some (handlePointerMove cfg pg event g) else Some ([], Inr g))"
| "deliver mouseListeners cfg pg Mouseup g =
     (if mouseListeners then handlePointerEnd cfg pg g else Some ([], Inr g))"

text \<open>
  A sequence of events on a page and under a configuration that do not change meanwhile:
  everything done, and the four fields at the end. A listener that throws leaves the fields
  as they were and the next event is delivered all the same.
\<close>

fun deliverAll ::
  "bool \<Rightarrow> Config \<Rightarrow> page \<Rightarrow> domEvent list \<Rightarrow> gesture \<Rightarrow> (effect list \<times> gesture) option" where
  "deliverAll mouseListeners cfg pg [] g = Some ([], g)"
| "deliverAll mouseListeners cfg pg (ev # evs) g =
     (case deliver mouseListeners cfg pg ev g of
        None \<Rightarrow> None
      | Some (done, r) \<Rightarrow>
          (case deliverAll mouseListeners cfg pg evs (case r of Inl e \<Rightarrow> g | Inr g' \<Rightarrow> g') of
             None \<Rightarrow> None
           | Some (rest, g'') \<Rightarrow> Some (done @ rest, g'')))"

text \<open>The tabs clicked by a list of effects, at once or by a timer.\<close>

fun clicks :: "effect \<Rightarrow> nat list" where
  "clicks (DispatchClick i) = [i]"
| "clicks (SetTimeout delay es) = concat (map clicks es)"
| "clicks e = []"

definition navigations :: "effect list \<Rightarrow> nat list" where
  "navigations es = concat (map clicks es)"

section \<open>The target-tab search as the specification words it\<close>

text \<open>
  The specification describes the search by the order in which the indices are visited:
  from the active index, step by step in the direction of the swipe up to the edge, and,
  when wrap-around is on, on from the opposite end up to the index before the active one.
  \<open>directionLeft\<close> steps down, otherwise up.
\<close>

definition visitOrder :: "bool \<Rightarrow> int \<Rightarrow> int \<Rightarrow> bool \<Rightarrow> int list" where
  "visitOrder wraps len active directionLeft =
     (if directionLeft
      then rev [0..active - 1] @ (if wraps then rev [active + 1..len - 1] else [])
      else [active + 1..len - 1] @ (if wraps then [0..active - 1] else []))"

text \<open>An index is skipped when it is in the skip list or, with skip-hidden, when its tab is hidden.\<close>

definition eligible :: "Config \<Rightarrow> node list \<Rightarrow> int \<Rightarrow> bool" where
  "eligible cfg tabs i =
     (IntVal i \<notin> set (skip_tabs cfg) \<and> \<not> (skip_hidden cfg \<and> displayNone (snd (tabs ! nat i))))"

text \<open>The first index of the visiting order that is not skipped, \<open>-1\<close> when there is none.\<close>

definition searchSpec :: "Config \<Rightarrow> node list \<Rightarrow> int \<Rightarrow> bool \<Rightarrow> int" where
  "searchSpec cfg tabs active directionLeft =
     (case find (eligible cfg tabs) (visitOrder (wrap cfg) (int (length tabs)) active directionLeft) of
        None \<Rightarrow> - 1
      | Some i \<Rightarrow> i)"

text \<open>
  \<open>follows f n cs e\<close>: iterating \<open>f\<close> from \<open>n\<close> runs through \<open>cs\<close> and then gives \<open>e\<close>.
\<close>

fun follows :: "(int \<Rightarrow> int) \<Rightarrow> int \<Rightarrow> int list \<Rightarrow> int \<Rightarrow> bool" where
  "follows f n [] e = (f n = e)"
| "follows f n (c # cs) e = (f n = c \<and> follows f c cs e)"

text \<open>The \<open>stopReason\<close> the loop sets when it stops at \<open>e\<close>.\<close>

definition stopReasonAt :: "int \<Rightarrow> int \<Rightarrow> string" where
  "stopReasonAt activeTabIndex e =
     (if e = activeTabIndex then ''Error, no viable tabs found for swiping.''
      else ''Edge has been reached and wrap is disabled.'')"

section \<open>Runs and example inputs\<close>


text \<open>
  For the examples: the text of a number that is an integer, in decimal digits. The
  examples use \<open>Inl\<close> and \<open>Inr\<close> for the two uses of \<open>JSON.stringify\<close>, which makes two
  texts equal exactly when the values are.
\<close>

fun natDigits :: "nat \<Rightarrow> jsstring" where
  "natDigits n = (if n < 10 then [48 + n] else natDigits (n div 10) @ [48 + n mod 10])"

declare natDigits.simps [simp del]

definition integerToString :: "real \<Rightarrow> jsstring" where
  "integerToString r =
     (if r < 0 then 45 # natDigits (nat \<lfloor>- r\<rfloor>) else natDigits (nat \<lfloor>r\<rfloor>))"

text \<open>A strip of \<open>n\<close> visible tabs and nothing else, the tab at \<open>active\<close> selected.\<close>

definition tabStrip :: "nat \<Rightarrow> nat \<Rightarrow> element list" where
  "tabStrip n active =
     map (\<lambda>i. \<lparr> paperTab = True, ironSelected = (i = active), displayNone = False \<rparr>) [0..<n]"

text \<open>
  A strip whose first tab is selected, whose second tab is hidden and whose third
  descendant is not a tab.
\<close>

definition hiddenStrip :: "element list" where
  "hiddenStrip =
     [\<lparr> paperTab = True, ironSelected = True, displayNone = False \<rparr>,
      \<lparr> paperTab = True, ironSelected = False, displayNone = True \<rparr>,
      \<lparr> paperTab = False, ironSelected = False, displayNone = False \<rparr>,
      \<lparr> paperTab = True, ironSelected = False, displayNone = False \<rparr>,
      \<lparr> paperTab = True, ironSelected = False, displayNone = False \<rparr>]"

text \<open>A page 1000 pixels wide, left to right, with its view, its layout node and a tab strip.\<close>

definition examplePage :: "element list \<Rightarrow> page" where
  "examplePage els =
     \<lparr> screenWidth = 1000, rtl = False, view = True, haAppLayout = True, tabsContainer = Some els \<rparr>"

text \<open>The four fields after a touch at (300, 100) was dragged to (50, 100).\<close>

definition trackedGesture :: gesture where
  "trackedGesture = \<lparr> xDown = Some 300, yDown = Some 100, xDiff = Some 250, yDiff = Some 0 \<rparr>"

definition wrapOff :: jsval where
  "wrapOff = JObj [(lit ''wrap'', JBool False)]"

definition wrapOffStatics :: "jsval ConfigStatics" where
  "wrapOffStatics =
     \<lparr> currentConfig = newConfig\<lparr>wrap := False\<rparr>, rawConfig = wrapOff, configObservers = [7, 9] \<rparr>"



text \<open>The static fields with observers 7 and 9 registered, before any read.\<close>

definition observedStatics :: "rawValue ConfigStatics" where
  "observedStatics = registerConfigObserver 9 (registerConfigObserver 7 initialStaticsOnHost)"

text \<open>A raw value the schema rejects: \<open>wrap\<close> must be a boolean.\<close>

definition wrapYes :: jsval where
  "wrapYes = JObj [(lit ''wrap'', JStr (lit ''yes''))]"

section \<open>Resilient node resolver\<close>

subsection \<open>The document\<close>

text \<open>
  What the resolvers read of the document during one call, which runs without the document
  changing: whether an element is connected, whether it has a shadow root that can be read
  (\<open>shadowRoot\<close> not null), whether it is an \<open>HTMLElement\<close>, and what \<open>querySelector\<close>
  gives in a context.
\<close>

record dom =
  isConnected :: "nat \<Rightarrow> bool"
  shadowRoot :: "nat \<Rightarrow> bool"
  isHTMLElement :: "nat \<Rightarrow> bool"
  querySelector :: "parentNode \<Rightarrow> string \<Rightarrow> nat option"

subsection \<open>The resolvers\<close>

text \<open>
  A \<open>PageObject\<close> is an object; the objects live in a store indexed by their identity. The
  parent of a resolver is another resolver, the document or an element. A callback is
  identified by a number; it is opaque here and a call of it is recorded as \<open>Called\<close> (the
  callbacks this program registers read resolvers that are resolved by then and change
  none). \<open>keepAliveChildren\<close> is the map from a child resolver to its
  \<open>MutationObserver\<close>, in insertion order; of an observer the model keeps the targets it
  observes.
\<close>

datatype parentRef = PageObjectRef nat | DocumentRef | ElementRef nat

record PageObject =
  domNode :: "nat option"
  parent :: parentRef
  selectors :: "string list"
  isSelectorsRootedInShadow :: bool
  keepAlive :: bool
  onDomNodeRefreshedCallback :: "nat option"
  onDomNodeRemovedCallback :: "nat option"
  keepAliveChildren :: "(nat \<times> parentNode list) list"

type_synonym store = "nat \<Rightarrow> PageObject"

text \<open>The constructor.\<close>

definition newPageObject :: "parentRef \<Rightarrow> string list \<Rightarrow> bool \<Rightarrow> PageObject" where
  "newPageObject parentOf sels rootedInShadow =
     \<lparr> domNode = None, parent = parentOf, selectors = sels,
       isSelectorsRootedInShadow = rootedInShadow, keepAlive = False,
       onDomNodeRefreshedCallback = None, onDomNodeRemovedCallback = None,
       keepAliveChildren = [] \<rparr>"

text \<open>
  A method gives the new store, what it did and its result. The methods call one another
  without a bound that the code states, so each takes the depth of calls it may use:
  \<open>None\<close> when that depth is not enough.
\<close>

type_synonym 'a run = "(store \<times> effect list \<times> 'a) option"

definition andThen :: "'a run \<Rightarrow> (store \<Rightarrow> 'a \<Rightarrow> 'b run) \<Rightarrow> 'b run" where
  "andThen m f =
     (case m of
        None \<Rightarrow> None
      | Some (h, e, a) \<Rightarrow>
          (case f h a of
             None \<Rightarrow> None
           | Some (h', e', b) \<Rightarrow> Some (h', e @ e', b)))"

text \<open>\<open>#isStale\<close>\<close>

definition isStale :: "dom \<Rightarrow> PageObject \<Rightarrow> bool" where
  "isStale d po = (case domNode po of None \<Rightarrow> True | Some n \<Rightarrow> \<not> isConnected d n)"

text \<open>\<open>#disconnectAllChildrenObservers\<close>: every observer this resolver holds stops observing.\<close>

definition disconnectAllChildrenObservers :: "store \<Rightarrow> nat \<Rightarrow> store \<times> effect list" where
  "disconnectAllChildrenObservers h p =
     (if keepAliveChildren (h p) \<noteq> []
      then (h(p := (h p)\<lparr>keepAliveChildren := map (\<lambda>entry. (fst entry, [])) (keepAliveChildren (h p))\<rparr>),
            Logged VERBOSE ''Disconnecting observers''
              # map (\<lambda>entry. ObserverDisconnected p (fst entry)) (keepAliveChildren (h p)))
      else (h, []))"

text \<open>\<open>invalidateDomNode\<close>\<close>

definition invalidateDomNode :: "store \<Rightarrow> nat \<Rightarrow> store \<times> effect list" where
  "invalidateDomNode h p =
     (let h1 = fst (disconnectAllChildrenObservers h p)
      in (h1(p := (h1 p)\<lparr>domNode := None\<rparr>),
          snd (disconnectAllChildrenObservers h p)
            @ (case onDomNodeRemovedCallback (h1 p) of None \<Rightarrow> [] | Some callback \<Rightarrow> [Called callback])))"

text \<open>
  The loop over the selectors in \<open>#refreshDomNode\<close>: the first selector whose match is an
  \<open>HTMLElement\<close> wins.
\<close>

fun firstMatch :: "dom \<Rightarrow> parentNode \<Rightarrow> string list \<Rightarrow> nat option" where
  "firstMatch d parentNode [] = None"
| "firstMatch d parentNode (selector # rest) =
     (case querySelector d parentNode selector of
        None \<Rightarrow> firstMatch d parentNode rest
      | Some n \<Rightarrow> if isHTMLElement d n then Some n else firstMatch d parentNode rest)"

text \<open>
  The end of \<open>#connectChildObserver\<close> before the child is resolved: the observer held for
  the child starts to observe the parent node of the child.
\<close>

definition observe :: "store \<Rightarrow> nat \<Rightarrow> nat \<Rightarrow> parentNode option \<Rightarrow> unit run" where
  "observe h p pageObject parentNode =
     (if pageObject \<notin> fst ` set (keepAliveChildren (h p))
      then Some (h, [Logged ERROR ''Illegal state: observer is not defined when connecting a child observer.''], ())
      else
        (case parentNode of
           None \<Rightarrow>
             Some (h, [Logged ERROR ''Illegal state: parent is not defined when connecting a child observer.''], ())
         | Some target \<Rightarrow>
             Some (h(p := (h p)\<lparr>keepAliveChildren :=
                      map (\<lambda>entry. if fst entry = pageObject
                                    then (fst entry, List.insert target (snd entry)) else entry)
                          (keepAliveChildren (h p))\<rparr>),
                   [ObserverObserves p pageObject target], ())))"

text \<open>
  The methods that call one another. \<open>forEach\<close> over \<open>keepAliveChildren\<close> visits the
  entries in insertion order and would also visit an entry that is added while it runs;
  here it runs over the children that are in the map when the loop starts. Entries are
  never removed, and one is added only by \<open>#addPageObjectToKeepAlive\<close> for a child that is
  not in the map: in a store where every resolver that is kept alive is in the map of its
  parent resolver (\<open>keepAliveClosed\<close> below), no call of these methods changes the children
  of any map (\<open>methods_fix_entries\<close>), so the two readings of the loop agree there. The
  resolvers are in such a store when they are built, and \<open>watchChanges\<close> and \<open>getDomNode\<close>
  lead from such a store to such a store (\<open>PageObjectManager_ok\<close>, \<open>watchChanges_returns\<close>,
  \<open>getDomNode_keeps_closed\<close>).
\<close>

function getDomNode :: "nat \<Rightarrow> dom \<Rightarrow> store \<Rightarrow> nat \<Rightarrow> nat option run"
  and refreshDomNode :: "nat \<Rightarrow> dom \<Rightarrow> store \<Rightarrow> nat \<Rightarrow> unit run"
  and getParentNode :: "nat \<Rightarrow> dom \<Rightarrow> store \<Rightarrow> nat \<Rightarrow> parentNode option run"
  and ensureKeepAliveWhenNeeded :: "nat \<Rightarrow> dom \<Rightarrow> store \<Rightarrow> nat \<Rightarrow> unit run"
  and addPageObjectToKeepAlive :: "nat \<Rightarrow> dom \<Rightarrow> store \<Rightarrow> nat \<Rightarrow> nat \<Rightarrow> unit run"
  and setKeepAlive :: "nat \<Rightarrow> dom \<Rightarrow> store \<Rightarrow> nat \<Rightarrow> unit run"
  and connectAllChildrenObservers :: "nat \<Rightarrow> dom \<Rightarrow> store \<Rightarrow> nat \<Rightarrow> unit run"
  and connectChildObserver :: "nat \<Rightarrow> dom \<Rightarrow> store \<Rightarrow> nat \<Rightarrow> nat \<Rightarrow> unit run"
where
  "getDomNode 0 d h p = None"
| "getDomNode (Suc k) d h p =
     (case domNode (h p) of
        None \<Rightarrow> andThen (refreshDomNode k d h p) (\<lambda>h1 u. Some (h1, [], domNode (h1 p)))
      | Some n \<Rightarrow>
          if isStale d (h p) then
            andThen (Some (fst (invalidateDomNode h p),
                           Logged DEBUG ''Stale object in cache. Invalidating...'' # snd (invalidateDomNode h p),
                           ()))
              (\<lambda>h1 u. andThen (getDomNode k d h1 p) (\<lambda>h2 r. Some (h2, [], domNode (h2 p))))
          else Some (h, [], Some n))"
| "refreshDomNode 0 d h p = None"
| "refreshDomNode (Suc k) d h p =
     andThen (getParentNode k d h p)
       (\<lambda>h1 parentNode.
          let node = (case parentNode of None \<Rightarrow> None | Some r \<Rightarrow> firstMatch d r (selectors (h1 p)));
              h2 = h1(p := (h1 p)\<lparr>domNode := node\<rparr>)
          in if node \<noteq> None then
               andThen (Some (h2, [Logged DEBUG ''Object refreshed''], ()))
                 (\<lambda>h3 u. andThen (ensureKeepAliveWhenNeeded k d h3 p)
                   (\<lambda>h4 u. andThen (connectAllChildrenObservers k d h4 p)
                     (\<lambda>h5 u. Some (h5,
                        (case onDomNodeRefreshedCallback (h5 p) of
                           None \<Rightarrow> []
                         | Some callback \<Rightarrow> [Called callback]),
                        ()))))
             else Some (h2, [], ()))"
| "getParentNode 0 d h p = None"
| "getParentNode (Suc k) d h p =
     andThen
       (case parent (h p) of
          PageObjectRef q \<Rightarrow> andThen (getDomNode k d h q) (\<lambda>h1 n. Some (h1, [], map_option ElementNode n))
        | DocumentRef \<Rightarrow> Some (h, [], Some DocumentNode)
        | ElementRef n \<Rightarrow> Some (h, [], Some (ElementNode n)))
       (\<lambda>h1 parentNode.
          if parentNode \<noteq> None \<and> isSelectorsRootedInShadow (h1 p) then
            (case parentNode of
               Some (ElementNode n) \<Rightarrow>
                 Some (h1, [], if shadowRoot d n then Some (ShadowRootOf n) else None)
             | _ \<Rightarrow> Some (h1, [Logged ERROR ''The parent is expected to have a shadowRoot, but it is missing.''], None))
          else Some (h1, [], parentNode))"
| "ensureKeepAliveWhenNeeded 0 d h p = None"
| "ensureKeepAliveWhenNeeded (Suc k) d h p =
     (case parent (h p) of
        PageObjectRef q \<Rightarrow>
          if keepAlive (h p) then addPageObjectToKeepAlive k d h q p else Some (h, [], ())
      | _ \<Rightarrow> Some (h, [], ()))"
| "addPageObjectToKeepAlive 0 d h p pageObject = None"
| "addPageObjectToKeepAlive (Suc k) d h p pageObject =
     (if pageObject \<notin> fst ` set (keepAliveChildren (h p)) then
        andThen (setKeepAlive k d
                   (h(p := (h p)\<lparr>keepAliveChildren := keepAliveChildren (h p) @ [(pageObject, [])]\<rparr>)) p)
          (\<lambda>h1 u. connectChildObserver k d h1 p pageObject)
      else Some (h, [], ()))"
| "setKeepAlive 0 d h p = None"
| "setKeepAlive (Suc k) d h p =
     (if \<not> keepAlive (h p)
      then ensureKeepAliveWhenNeeded k d (h(p := (h p)\<lparr>keepAlive := True\<rparr>)) p
      else Some (h, [], ()))"
| "connectAllChildrenObservers 0 d h p = None"
| "connectAllChildrenObservers (Suc k) d h p =
     (if domNode (h p) \<noteq> None \<and> keepAliveChildren (h p) \<noteq> [] then
        foldl (\<lambda>m pageObject. andThen m (\<lambda>h1 u. connectChildObserver k d h1 p pageObject))
          (Some (h, [Logged VERBOSE ''Reconnecting observers''], ()))
          (map fst (keepAliveChildren (h p)))
      else Some (h, [], ()))"
| "connectChildObserver 0 d h p pageObject = None"
| "connectChildObserver (Suc k) d h p pageObject =
     (if domNode (h p) \<noteq> None then
        andThen (getParentNode k d h pageObject)
          (\<lambda>h1 parentNode. andThen (observe h1 p pageObject parentNode)
            (\<lambda>h2 u. andThen (getDomNode k d h2 pageObject) (\<lambda>h3 n. Some (h3, [], ()))))
      else Some (h, [], ()))"
  by pat_completeness auto

termination
  by (relation "measure (case_sum (case_sum (case_sum fst fst) (case_sum fst fst))
                                  (case_sum (case_sum fst fst) (case_sum fst fst)))")
     simp_all

text \<open>\<open>watchChanges\<close>\<close>

definition watchChanges :: "nat \<Rightarrow> dom \<Rightarrow> store \<Rightarrow> nat \<Rightarrow> nat \<Rightarrow> nat option \<Rightarrow> unit run" where
  "watchChanges k d h p refreshed removed =
     andThen (setKeepAlive k d h p)
       (\<lambda>h1 u. Some (h1(p := (h1 p)\<lparr>onDomNodeRefreshedCallback := Some refreshed,
                                   onDomNodeRemovedCallback := removed\<rparr>), [], ()))"

subsection \<open>Well-formed documents and stores\<close>

text \<open>A context is connected when it is the document or belongs to a connected element.\<close>

fun connectedNode :: "dom \<Rightarrow> parentNode \<Rightarrow> bool" where
  "connectedNode d DocumentNode = True"
| "connectedNode d (ElementNode n) = isConnected d n"
| "connectedNode d (ShadowRootOf n) = isConnected d n"

text \<open>\<open>querySelector\<close> gives a descendant of its context: in a connected context, a connected element.\<close>

definition domOk :: "dom \<Rightarrow> bool" where
  "domOk d = (\<forall>r selector n. querySelector d r selector = Some n \<and> connectedNode d r \<longrightarrow> isConnected d n)"

text \<open>
  The first \<open>N\<close> objects of the store are the resolvers. A resolver is built after its
  parent resolver; a parent that is an element is connected; the children a resolver keeps
  alive are resolvers whose parent it is.
\<close>

definition storeOk :: "nat \<Rightarrow> dom \<Rightarrow> store \<Rightarrow> bool" where
  "storeOk N d h =
     (\<forall>p < N.
        (case parent (h p) of
           PageObjectRef q \<Rightarrow> q < p
         | DocumentRef \<Rightarrow> True
         | ElementRef n \<Rightarrow> isConnected d n)
        \<and> (\<forall>c \<in> fst ` set (keepAliveChildren (h p)). c < N \<and> parent (h c) = PageObjectRef p))"

text \<open>A resolver is resolved when its cached node is there and connected.\<close>

definition resolved :: "dom \<Rightarrow> store \<Rightarrow> nat \<Rightarrow> bool" where
  "resolved d h p = (case domNode (h p) of None \<Rightarrow> False | Some n \<Rightarrow> isConnected d n)"

text \<open>
  The depth of calls that is enough for a call: it grows with the number of resolvers
  that are not resolved, then with the index of the resolver, then with the place of the
  method in the chain of calls.
\<close>

definition unresolved :: "nat \<Rightarrow> dom \<Rightarrow> store \<Rightarrow> nat" where
  "unresolved N d h = card {p. p < N \<and> \<not> resolved d h p}"

definition callDepth :: "nat \<Rightarrow> nat \<Rightarrow> nat \<Rightarrow> nat \<Rightarrow> nat" where
  "callDepth N u i j = 10 * (u * Suc N + i) + j"

text \<open>
  What the proofs carry along a call: the store stays well formed and a resolver that was
  resolved stays resolved.
\<close>

definition keepsResolved :: "dom \<Rightarrow> store \<Rightarrow> store \<Rightarrow> bool" where
  "keepsResolved d h h' = (\<forall>p. resolved d h p \<longrightarrow> resolved d h' p)"

definition returnsOk :: "nat \<Rightarrow> dom \<Rightarrow> store \<Rightarrow> 'a run \<Rightarrow> (store \<Rightarrow> 'a \<Rightarrow> bool) \<Rightarrow> bool" where
  "returnsOk N d h m Q =
     (\<exists>h' e r. m = Some (h', e, r) \<and> storeOk N d h' \<and> keepsResolved d h h' \<and> Q h' r)"

text \<open>
  What each method is shown to do with a depth of calls \<open>k\<close>, from every well-formed store
  in which its call depth is below \<open>k\<close>: it returns, and \<open>getDomNode\<close> returns the cached
  node, which is empty or connected.
\<close>

definition getDomNodeReturns :: "nat \<Rightarrow> dom \<Rightarrow> nat \<Rightarrow> bool" where
  "getDomNodeReturns N d k =
     (\<forall>h p. storeOk N d h \<and> p < N
        \<and> callDepth N (unresolved N d h) p (if domNode (h p) \<noteq> None \<and> isStale d (h p) then 3 else 2) < k
        \<longrightarrow> returnsOk N d h (getDomNode k d h p)
              (\<lambda>h' r. r = domNode (h' p) \<and> (r = None \<or> resolved d h' p)))"

definition refreshDomNodeReturns :: "nat \<Rightarrow> dom \<Rightarrow> nat \<Rightarrow> bool" where
  "refreshDomNodeReturns N d k =
     (\<forall>h p. storeOk N d h \<and> p < N \<and> \<not> resolved d h p
        \<and> callDepth N (unresolved N d h) p 1 < k
        \<longrightarrow> returnsOk N d h (refreshDomNode k d h p)
              (\<lambda>h' u. domNode (h' p) = None \<or> resolved d h' p))"

definition getParentNodeReturns :: "nat \<Rightarrow> dom \<Rightarrow> nat \<Rightarrow> bool" where
  "getParentNodeReturns N d k =
     (\<forall>h p. storeOk N d h \<and> p < N \<and> callDepth N (unresolved N d h) p 0 < k
        \<longrightarrow> returnsOk N d h (getParentNode k d h p)
              (\<lambda>h' r. \<forall>x. r = Some x \<longrightarrow> connectedNode d x))"

definition ensureKeepAliveWhenNeededReturns :: "nat \<Rightarrow> dom \<Rightarrow> nat \<Rightarrow> bool" where
  "ensureKeepAliveWhenNeededReturns N d k =
     (\<forall>h p. storeOk N d h \<and> p < N \<and> callDepth N (unresolved N d h) p 7 < k
        \<longrightarrow> returnsOk N d h (ensureKeepAliveWhenNeeded k d h p) (\<lambda>h' u. True))"

definition addPageObjectToKeepAliveReturns :: "nat \<Rightarrow> dom \<Rightarrow> nat \<Rightarrow> bool" where
  "addPageObjectToKeepAliveReturns N d k =
     (\<forall>h p c. storeOk N d h \<and> c < N \<and> parent (h c) = PageObjectRef p
        \<and> callDepth N (unresolved N d h) c 6 < k
        \<longrightarrow> returnsOk N d h (addPageObjectToKeepAlive k d h p c) (\<lambda>h' u. True))"

definition setKeepAliveReturns :: "nat \<Rightarrow> dom \<Rightarrow> nat \<Rightarrow> bool" where
  "setKeepAliveReturns N d k =
     (\<forall>h p. storeOk N d h \<and> p < N \<and> callDepth N (unresolved N d h) p 8 < k
        \<longrightarrow> returnsOk N d h (setKeepAlive k d h p) (\<lambda>h' u. True))"

definition connectAllChildrenObserversReturns :: "nat \<Rightarrow> dom \<Rightarrow> nat \<Rightarrow> bool" where
  "connectAllChildrenObserversReturns N d k =
     (\<forall>h p. storeOk N d h \<and> p < N \<and> callDepth N (unresolved N d h) N 0 < k
        \<longrightarrow> returnsOk N d h (connectAllChildrenObservers k d h p) (\<lambda>h' u. True))"

definition connectChildObserverReturns :: "nat \<Rightarrow> dom \<Rightarrow> nat \<Rightarrow> bool" where
  "connectChildObserverReturns N d k =
     (\<forall>h p c. storeOk N d h \<and> p < N \<and> c < N \<and> callDepth N (unresolved N d h) c 4 < k
        \<longrightarrow> returnsOk N d h (connectChildObserver k d h p c) (\<lambda>h' u. True))"

text \<open>Whatever the first run returns, the second returns too.\<close>

definition returnsAlso :: "'a run \<Rightarrow> 'a run \<Rightarrow> bool" where
  "returnsAlso m m' = (\<forall>x. m = Some x \<longrightarrow> m' = Some x)"

subsection \<open>The children that are kept alive\<close>

text \<open>
  Every resolver that is kept alive and has a parent resolver is in the map of that parent.
\<close>

definition keepAliveClosed :: "store \<Rightarrow> bool" where
  "keepAliveClosed h =
     (\<forall>c p. parent (h c) = PageObjectRef p \<and> keepAlive (h c)
        \<longrightarrow> c \<in> fst ` set (keepAliveChildren (h p)))"

text \<open>Two stores with the same parents, the same keep-alive flags and the same children in every map.\<close>

definition sameEntries :: "store \<Rightarrow> store \<Rightarrow> bool" where
  "sameEntries h h' =
     (\<forall>p. parent (h' p) = parent (h p) \<and> keepAlive (h' p) = keepAlive (h p)
        \<and> map fst (keepAliveChildren (h' p)) = map fst (keepAliveChildren (h p)))"

text \<open>A run from \<open>h\<close> that, when it returns, has changed none of these.\<close>

definition entriesFixed :: "store \<Rightarrow> 'a run \<Rightarrow> bool" where
  "entriesFixed h m = (\<forall>h' e r. m = Some (h', e, r) \<longrightarrow> sameEntries h h')"

definition methodsFixEntries :: "nat \<Rightarrow> dom \<Rightarrow> bool" where
  "methodsFixEntries k d =
     (\<forall>h p c. keepAliveClosed h \<longrightarrow>
        entriesFixed h (getDomNode k d h p)
        \<and> entriesFixed h (refreshDomNode k d h p)
        \<and> entriesFixed h (getParentNode k d h p)
        \<and> entriesFixed h (ensureKeepAliveWhenNeeded k d h p)
        \<and> (c \<in> fst ` set (keepAliveChildren (h p))
             \<longrightarrow> entriesFixed h (addPageObjectToKeepAlive k d h p c))
        \<and> (keepAlive (h p) \<longrightarrow> entriesFixed h (setKeepAlive k d h p))
        \<and> entriesFixed h (connectAllChildrenObservers k d h p)
        \<and> entriesFixed h (connectChildObserver k d h p c))"

subsection \<open>The resolvers of the program\<close>

text \<open>
  \<open>PageObjectManager\<close>: the eight resolvers in the order in which they are built, as they
  are before any call. The selector of \<open>haAppLayout\<close> depends on the version of the host.
\<close>

definition PageObjectManager :: "bool \<Rightarrow> store" where
  "PageObjectManager isLessThan2023_4 =
     (\<lambda>p. newPageObject DocumentRef [] False)
       (0 := newPageObject DocumentRef [''home-assistant''] False,
        1 := newPageObject (PageObjectRef 0) [''home-assistant-main''] True,
        2 := newPageObject (PageObjectRef 1) [''partial-panel-resolver''] True,
        3 := newPageObject (PageObjectRef 2) [''ha-panel-lovelace''] False,
        4 := newPageObject (PageObjectRef 3) [''hui-root''] True,
        5 := newPageObject (PageObjectRef 4) [if isLessThan2023_4 then ''ha-app-layout'' else ''div''] True,
        6 := newPageObject (PageObjectRef 5) [''[id=\"view\"]''] False,
        7 := newPageObject (PageObjectRef 5) [''paper-tabs'', ''ha-tabs''] False)"

subsection \<open>An example\<close>

text \<open>
  Two resolvers as in the registry: resolver 0 looks for \<open>home-assistant\<close> in the document,
  resolver 1 for \<open>home-assistant-main\<close> in the shadow root of the node of resolver 0, and is
  kept alive by resolver 0. The host has replaced both elements: the cached nodes 10 and 20
  are no longer connected, the elements 11 and 21 have taken their place.
\<close>

definition exampleDom :: dom where
  "exampleDom =
     \<lparr> isConnected = (\<lambda>n. n = 11 \<or> n = 21),
       shadowRoot = (\<lambda>n. n = 10 \<or> n = 11),
       isHTMLElement = (\<lambda>n. True),
       querySelector =
         (\<lambda>r selector.
            if r = DocumentNode \<and> selector = ''home-assistant'' then Some 11
            else if r = ShadowRootOf 11 \<and> selector = ''home-assistant-main'' then Some 21
            else if r = ShadowRootOf 10 \<and> selector = ''home-assistant-main'' then Some 20
            else None) \<rparr>"

definition exampleStore :: store where
  "exampleStore =
     (\<lambda>p. newPageObject DocumentRef [] False)
       (0 := (newPageObject DocumentRef [''home-assistant''] False)
               \<lparr>domNode := Some 10, keepAlive := True, onDomNodeRemovedCallback := Some 5,
                keepAliveChildren := [(1, [ShadowRootOf 10])]\<rparr>,
        1 := (newPageObject (PageObjectRef 0) [''home-assistant-main''] True)
               \<lparr>domNode := Some 20, keepAlive := True, onDomNodeRefreshedCallback := Some 3\<rparr>)"

section \<open>Properties of the configuration model\<close>

subsection \<open>Parsing \<open>skip_tabs\<close>\<close>

lemma split_append_sep: "split sep (a @ sep # b) = split sep a @ split sep b"
proof (induction a)
  case Nil
  show ?case by simp
next
  case (Cons c a)
  have ne: "split sep a \<noteq> []" by (cases a) (auto split: list.splits)
  show ?case
  proof (cases "c = sep")
    case True
    thus ?thesis using Cons by simp
  next
    case False
    obtain p ps where s: "split sep a = p # ps" using ne by (cases "split sep a") auto
    thus ?thesis using Cons False by simp
  qed
qed

lemma split_no_sep: "sep \<notin> set a \<Longrightarrow> split sep a = [a]"
  by (induction a) auto

lemma removeWhiteSpace_append:
  "removeWhiteSpace (a @ b) = removeWhiteSpace a @ removeWhiteSpace b"
  by (simp add: removeWhiteSpace_def)

lemma removeWhiteSpace_none:
  "\<forall>c \<in> set a. \<not> isWhiteSpace c \<Longrightarrow> removeWhiteSpace a = a"
  by (simp add: removeWhiteSpace_def)

lemma comma_not_white: "\<not> isWhiteSpace 44"
  by (simp add: isWhiteSpace_def)

lemma parseSkipTabs_white:
  assumes "isWhiteSpace w"
  shows "parseSkipTabs n (JStr (a @ w # b)) = parseSkipTabs n (JStr (a @ b))"
  using assms by (simp add: parseSkipTabs_def removeWhiteSpace_def)

lemma parseSkipTabs_comma:
  "parseSkipTabs n (JStr (a @ 44 # b)) = parseSkipTabs n (JStr a) @ parseSkipTabs n (JStr b)"
proof -
  have "removeWhiteSpace (a @ 44 # b) = removeWhiteSpace a @ 44 # removeWhiteSpace b"
    using comma_not_white by (simp add: removeWhiteSpace_def)
  thus ?thesis by (simp add: parseSkipTabs_def split_append_sep)
qed

lemma parseSkipTabs_piece:
  assumes "44 \<notin> set a" "\<forall>c \<in> set a. \<not> isWhiteSpace c"
  shows "parseSkipTabs n (JStr a) = [parseInt a]"
  using assms by (simp add: parseSkipTabs_def removeWhiteSpace_none split_no_sep)

text \<open>\<open>parseInt\<close> reads the decimal digits of a number as that number.\<close>

lemma natDigits_digits: "\<forall>c \<in> set (natDigits n). 48 \<le> c \<and> c \<le> 57"
proof (induction n rule: natDigits.induct)
  case (1 n)
  show ?case
  proof (cases "n < 10")
    case True
    thus ?thesis by (subst natDigits.simps) (simp del: natDigits.simps)
  next
    case False
    have "n mod 10 < 10" by simp
    hence "48 + n mod 10 \<le> 57" by linarith
    thus ?thesis using False 1 by (subst natDigits.simps) (auto simp del: natDigits.simps)
  qed
qed

lemma natDigits_ne: "natDigits n \<noteq> []"
  by (subst natDigits.simps) (simp del: natDigits.simps)

lemma digitsValue_snoc:
  "digitsValue R (Z @ [c]) = digitsValue R Z * R + (case digitValue c of Some d \<Rightarrow> d | None \<Rightarrow> 0)"
  by (simp add: digitsValue_def)

lemma digitValue_digit: "d < 10 \<Longrightarrow> digitValue (48 + d) = Some d"
  by (simp add: digitValue_def)

lemma digitsValue_natDigits: "digitsValue 10 (natDigits n) = n"
proof (induction n rule: natDigits.induct)
  case (1 n)
  show ?case
  proof (cases "n < 10")
    case True
    thus ?thesis
      by (subst natDigits.simps) (simp add: digitsValue_def digitValue_digit del: natDigits.simps)
  next
    case False
    have "digitsValue 10 (natDigits (n div 10) @ [48 + n mod 10]) = (n div 10) * 10 + n mod 10"
      using 1[OF False] by (simp add: digitsValue_snoc digitValue_digit del: natDigits.simps)
    thus ?thesis using False by (subst natDigits.simps) (simp del: natDigits.simps)
  qed
qed

lemma isDigitOf_decimal: "48 \<le> c \<Longrightarrow> c \<le> 57 \<Longrightarrow> isDigitOf 10 c"
  by (auto simp: isDigitOf_def digitValue_def)

lemma not_white_digit: "48 \<le> c \<Longrightarrow> c \<le> 57 \<Longrightarrow> \<not> isWhiteSpace c"
  by (auto simp: isWhiteSpace_def)

lemma parseInt_digits:
  assumes ne: "Z \<noteq> []" and dig: "\<forall>c \<in> set Z. 48 \<le> c \<and> c \<le> 57"
  shows "parseInt Z = IntVal (int (digitsValue 10 Z))"
    and "parseInt (45 # Z) = IntVal (- int (digitsValue 10 Z))"
proof -
  have first: "48 \<le> hd Z" "hd Z \<le> 57" using dig ne by (cases Z; simp)+
  have d: "dropWhile isWhiteSpace Z = Z"
    using not_white_digit[OF first] ne by (cases Z) auto
  have nw45: "\<not> isWhiteSpace 45" by (simp add: isWhiteSpace_def)
  have nosign: "hd Z \<noteq> 45" "hd Z \<noteq> 43" using first by auto
  have "set (take 2 Z) \<subseteq> set Z" by (rule set_take_subset)
  hence "120 \<notin> set (take 2 Z)" "88 \<notin> set (take 2 Z)" using dig by fastforce+
  hence nohex: "take 2 Z \<noteq> [48, 120]" "take 2 Z \<noteq> [48, 88]" by auto
  have all: "takeWhile (isDigitOf 10) Z = Z"
    using dig by (simp add: isDigitOf_decimal)
  show "parseInt Z = IntVal (int (digitsValue 10 Z))"
    using nohex nosign ne by (simp add: parseInt_def Let_def all d)
  show "parseInt (45 # Z) = IntVal (- int (digitsValue 10 Z))"
    using nohex nw45 ne by (simp add: parseInt_def Let_def all)
qed

lemma parseInt_decimal:
  "parseInt (natDigits n) = IntVal (int n)"
  "parseInt (45 # natDigits n) = IntVal (- int n)"
  using parseInt_digits[OF natDigits_ne natDigits_digits, of n]
  by (simp_all only: digitsValue_natDigits)

lemma parseInt_none: "parseInt [] = NaN"
  by (simp add: parseInt_def)

lemmas skipTabs_eval = parseSkipTabs_def removeWhiteSpace_def isWhiteSpace_def parseInt_def
  isDigitOf_def digitValue_def digitsValue_def Let_def

lemma skip_tabs_space_inside: "parseSkipTabs numberToString (JStr (lit ''1 2, 3'')) = [IntVal 12, IntVal 3]"
  by (simp add: skipTabs_eval)

lemma skip_tabs_spaces_around: "parseSkipTabs numberToString (JStr (lit '' 1, 3,5 '')) = [IntVal 1, IntVal 3, IntVal 5]"
  by (simp add: skipTabs_eval)

lemma skip_tabs_pieces: "parseSkipTabs numberToString (JStr (lit ''10, 20 ,-7,x,''))
             = [IntVal 10, IntVal 20, IntVal (- 7), NaN, NaN]"
  by (simp add: skipTabs_eval)

lemma skip_tabs_array: "parseSkipTabs integerToString (JArr [JNum 1, JNum 3, JNum 5]) = [IntVal 1, IntVal 3, IntVal 5]"
  by (simp add: skipTabs_eval integerToString_def natDigits.simps)

lemma skip_tabs_number: "parseSkipTabs integerToString (JNum 12) = [IntVal 12]"
  by (simp add: skipTabs_eval integerToString_def natDigits.simps)

lemmas parseConfig_eval = parseConfig_def instanceOfSwipeNavigationConfig_def getProp_def optional_def
  loggerLevelSwitch_def stringField_def numberField_def booleanField_def newConfig_def

lemma parseConfig_skip_tabs_space_inside: "parseConfig numberToString (JObj [(lit ''skip_tabs'', JStr (lit ''1 2, 3''))])
     = Inr (Some (newConfig\<lparr>skip_tabs := [IntVal 12, IntVal 3]\<rparr>), [])"
  using skip_tabs_space_inside[of numberToString] by (simp add: parseConfig_eval)

lemma natDigits_plain: "44 \<notin> set (natDigits n)" "\<forall>c \<in> set (natDigits n). \<not> isWhiteSpace c"
  using natDigits_digits[of n] not_white_digit by fastforce+

lemma parseSkipTabs_decimals:
  assumes "ns \<noteq> []"
  shows "parseSkipTabs numberToString (JStr (join [44] (map natDigits ns))) = map (\<lambda>n. IntVal (int n)) ns"
  using assms
proof (induction ns rule: list_nonempty_induct)
  case (single n)
  show ?case
    using parseSkipTabs_piece[OF natDigits_plain, of numberToString n]
    by (simp add: parseInt_decimal del: natDigits.simps)
next
  case (cons n ns)
  obtain m ms where ns: "ns = m # ms" using cons.hyps by (cases ns) auto
  have "join [44] (map natDigits (n # ns)) = natDigits n @ 44 # join [44] (map natDigits ns)"
    by (simp add: ns del: natDigits.simps)
  hence "parseSkipTabs numberToString (JStr (join [44] (map natDigits (n # ns))))
           = parseSkipTabs numberToString (JStr (natDigits n))
             @ parseSkipTabs numberToString (JStr (join [44] (map natDigits ns)))"
    by (simp only: parseSkipTabs_comma)
  also have "\<dots> = [IntVal (int n)] @ map (\<lambda>n. IntVal (int n)) ns"
    using parseSkipTabs_piece[OF natDigits_plain, of numberToString n] cons.IH
    by (simp only: parseInt_decimal)
  finally show ?case by simp
qed

lemma white_codes:
  "isWhiteSpace w \<longleftrightarrow>
     w \<in> set [9, 10, 11, 12, 13, 32, 160, 5760, 8232, 8233, 8239, 8287, 12288, 65279]
     \<or> 8192 \<le> w \<and> w \<le> 8202"
  by (simp add: isWhiteSpace_def)

text \<open>
  Claim C8. A \<open>skip_tabs\<close> value is turned into its text, all white space is taken out of
  the text, what is left is split at the commas, and each piece is parsed as an integer,
  in order. White space anywhere in the text, also inside a number, changes nothing; a
  comma joins the results of what is before it and what is after it; a piece without comma
  or white space is read by \<open>parseInt\<close>, which reads the decimal digits of a number as that number
  (up to \<open>2 ^ 53\<close>, where the program's numbers are exact) and gives \<open>NaN\<close> on the empty
  piece; so the decimal texts of a list of numbers, joined by commas, give that list. The
  string \<open>" 1, 3,5 "\<close> gives 1, 3, 5, also through \<open>parseConfig\<close>; \<open>"1 2, 3"\<close> gives 12, 3;
  the array \<open>[1, 3, 5]\<close> gives 1, 3, 5 and the number 12 gives 12.
\<close>

theorem skip_tabs_parsing:
  "(w \<in> set [9, 10, 11, 12, 13, 32, 160, 5760, 8232, 8233, 8239, 8287, 12288, 65279]
      \<or> 8192 \<le> w \<and> w \<le> 8202
     \<longrightarrow> parseSkipTabs numberToString (JStr (a @ w # b)) = parseSkipTabs numberToString (JStr (a @ b)))
   \<and> parseSkipTabs numberToString (JStr (a @ 44 # b))
       = parseSkipTabs numberToString (JStr a) @ parseSkipTabs numberToString (JStr b)
   \<and> (44 \<notin> set a \<and> (\<forall>c \<in> set a. \<not> isWhiteSpace c)
        \<longrightarrow> parseSkipTabs numberToString (JStr a) = [parseInt a])
   \<and> (n \<le> 2 ^ 53
        \<longrightarrow> parseInt (natDigits n) = IntVal (int n) \<and> parseInt (45 # natDigits n) = IntVal (- int n))
   \<and> parseInt [] = NaN
   \<and> (ns \<noteq> [] \<and> (\<forall>n \<in> set ns. n \<le> 2 ^ 53)
        \<longrightarrow> parseSkipTabs numberToString (JStr (join (lit '','') (map natDigits ns)))
            = map (\<lambda>n. IntVal (int n)) ns)
   \<and> parseSkipTabs numberToString v = parseSkipTabs numberToString (JStr (toString numberToString v))
   \<and> parseSkipTabs numberToString (JStr (lit '' 1, 3,5 '')) = [IntVal 1, IntVal 3, IntVal 5]
   \<and> parseSkipTabs numberToString (JStr (lit ''1 2, 3'')) = [IntVal 12, IntVal 3]
   \<and> parseSkipTabs numberToString (JStr (lit ''10, 20 ,-7,x,''))
       = [IntVal 10, IntVal 20, IntVal (- 7), NaN, NaN]
   \<and> parseSkipTabs integerToString (JArr [JNum 1, JNum 3, JNum 5]) = [IntVal 1, IntVal 3, IntVal 5]
   \<and> parseSkipTabs integerToString (JNum 12) = [IntVal 12]
   \<and> parseConfig numberToString (JObj [(lit ''skip_tabs'', JStr (lit '' 1, 3,5 ''))])
       = Inr (Some (newConfig\<lparr>skip_tabs := [IntVal 1, IntVal 3, IntVal 5]\<rparr>), [])
   \<and> parseConfig numberToString (JObj [(lit ''skip_tabs'', JStr (lit ''1 2, 3''))])
       = Inr (Some (newConfig\<lparr>skip_tabs := [IntVal 12, IntVal 3]\<rparr>), [])"
proof -
  have white: "w \<in> set [9, 10, 11, 12, 13, 32, 160, 5760, 8232, 8233, 8239, 8287, 12288, 65279]
      \<or> 8192 \<le> w \<and> w \<le> 8202
     \<longrightarrow> parseSkipTabs numberToString (JStr (a @ w # b)) = parseSkipTabs numberToString (JStr (a @ b))"
    using parseSkipTabs_white[of w numberToString a b] by (simp only: white_codes) blast
  have piece: "44 \<notin> set a \<and> (\<forall>c \<in> set a. \<not> isWhiteSpace c)
        \<longrightarrow> parseSkipTabs numberToString (JStr a) = [parseInt a]"
    using parseSkipTabs_piece[of a numberToString] by blast
  have decimal: "n \<le> 2 ^ 53
        \<longrightarrow> parseInt (natDigits n) = IntVal (int n) \<and> parseInt (45 # natDigits n) = IntVal (- int n)"
    by (simp add: parseInt_decimal)
  have sep: "lit '','' = [44]" by simp
  have decimals: "ns \<noteq> [] \<and> (\<forall>n \<in> set ns. n \<le> 2 ^ 53)
        \<longrightarrow> parseSkipTabs numberToString (JStr (join (lit '','') (map natDigits ns)))
            = map (\<lambda>n. IntVal (int n)) ns"
    unfolding sep using parseSkipTabs_decimals[of ns numberToString] by blast
  have asText: "parseSkipTabs numberToString v = parseSkipTabs numberToString (JStr (toString numberToString v))"
    by (simp add: parseSkipTabs_def)
  have c1: "parseConfig numberToString (JObj [(lit ''skip_tabs'', JStr (lit '' 1, 3,5 ''))])
       = Inr (Some (newConfig\<lparr>skip_tabs := [IntVal 1, IntVal 3, IntVal 5]\<rparr>), [])"
    using skip_tabs_spaces_around[of numberToString] by (simp add: parseConfig_eval)
  show ?thesis
    by (intro conjI white parseSkipTabs_comma piece decimal parseInt_none decimals asText
          skip_tabs_spaces_around skip_tabs_space_inside skip_tabs_pieces skip_tabs_array skip_tabs_number c1 parseConfig_skip_tabs_space_inside)
qed

text \<open>
  A space inside \<open>"1 2, 3"\<close> is taken out before the split; \<open>"120"\<close> is one piece, read as
  120; the texts of 1, 30 and 5 joined by commas are read as 1, 30, 5.
\<close>

theorem skip_tabs_parsing_witness:
  "parseSkipTabs integerToString (JStr (lit ''1 2, 3'')) = parseSkipTabs integerToString (JStr (lit ''12, 3''))
   \<and> parseSkipTabs integerToString (JStr (lit ''12, 3'')) = [IntVal 12, IntVal 3]
   \<and> 44 \<notin> set (lit ''120'') \<and> \<not> isWhiteSpace 49 \<and> \<not> isWhiteSpace 50 \<and> \<not> isWhiteSpace 48
   \<and> parseSkipTabs integerToString (JStr (lit ''120'')) = [IntVal 120]
   \<and> natDigits 120 = lit ''120'' \<and> (120::nat) \<le> 2 ^ 53
   \<and> parseInt (lit ''120'') = IntVal 120 \<and> parseInt (lit ''-120'') = IntVal (- 120)
   \<and> join (lit '','') (map natDigits [1, 30, 5]) = lit ''1,30,5''
   \<and> parseSkipTabs integerToString (JStr (lit ''1,30,5'')) = [IntVal 1, IntVal 30, IntVal 5]"
proof -
  have digits: "natDigits 120 = lit ''120''" "natDigits 1 = lit ''1''" "natDigits 30 = lit ''30''"
    "natDigits 5 = lit ''5''" "natDigits 12 = lit ''12''" "natDigits 3 = lit ''3''"
    by (simp_all add: natDigits.simps)
  have white: "\<not> isWhiteSpace 49" "\<not> isWhiteSpace 50" "\<not> isWhiteSpace 48"
    by (simp_all add: isWhiteSpace_def)
  have small: "(120::nat) \<le> 2 ^ 53" "(1::nat) \<le> 2 ^ 53" "(30::nat) \<le> 2 ^ 53" "(5::nat) \<le> 2 ^ 53"
    by simp_all
  note inst = skip_tabs_parsing[where w = 32 and a = "lit ''1''" and b = "lit ''2, 3''"
                 and n = 120 and ns = "[1, 30, 5]" and numberToString = integerToString and v = JNull]
  note inst2 = skip_tabs_parsing[where w = 32 and a = "lit ''120''" and b = "[]"
                 and n = 120 and ns = "[12, 3]" and numberToString = integerToString and v = JNull]
  have a: "parseSkipTabs integerToString (JStr (lit ''1 2, 3'')) = parseSkipTabs integerToString (JStr (lit ''12, 3''))"
    using inst by simp
  have b: "parseSkipTabs integerToString (JStr (lit ''12, 3'')) = [IntVal 12, IntVal 3]"
    using a inst by simp
  have c: "parseSkipTabs integerToString (JStr (lit ''120'')) = [IntVal 120]"
    "parseInt (lit ''120'') = IntVal 120" "parseInt (lit ''-120'') = IntVal (- 120)"
    using inst2 white small digits by simp_all
  have j: "join (lit '','') (map natDigits [1, 30, 5]) = lit ''1,30,5''"
    by (simp add: natDigits.simps)
  have d: "parseSkipTabs integerToString (JStr (lit ''1,30,5'')) = [IntVal 1, IntVal 30, IntVal 5]"
    using inst small j by simp
  show ?thesis
    using a b c d j digits(1) white small(1) by simp
qed

subsection \<open>\<open>parseConfig\<close> on valid and on invalid values\<close>

lemma loggerLevelSwitch_valid:
  assumes "optional (isLiteralOf loggerLevelVariants) v"
  shows "\<exists>l. loggerLevelSwitch v cur = Inr l"
  using assms
  by (auto simp: optional_def isLiteralOf_def loggerLevelVariants_def loggerLevelSwitch_def
           split: option.splits jsval.splits)

lemma loggerLevelSwitch_unhandled:
  "s \<notin> set loggerLevelVariants \<Longrightarrow> loggerLevelSwitch (Some (JStr s)) cur = Inl UnhandledCase"
  by (simp add: loggerLevelSwitch_def loggerLevelVariants_def)

lemma stringField_animate:
  assumes "optional (isLiteralOf animateVariants) v"
  shows "stringField v (lit ''none'') \<in> set animateVariants"
  using assms
  by (auto simp: optional_def isLiteralOf_def animateVariants_def stringField_def
           split: option.splits jsval.splits)

lemma valid_fields:
  assumes "instanceOfSwipeNavigationConfig raw"
  shows "optional (isLiteralOf loggerLevelVariants) (getProp raw (lit ''logger_level''))"
    and "optional (isLiteralOf animateVariants) (getProp raw (lit ''animate''))"
  using assms by (auto simp: instanceOfSwipeNavigationConfig_def split: jsval.splits)

lemma parseConfig_valid:
  assumes "instanceOfSwipeNavigationConfig raw"
  shows "\<exists>c. parseConfig numberToString raw = Inr (Some c, []) \<and> animate c \<in> set animateVariants"
proof -
  from loggerLevelSwitch_valid[OF valid_fields(1)[OF assms]]
  obtain l where l: "loggerLevelSwitch (getProp raw (lit ''logger_level'')) (logger_level newConfig) = Inr l"
    by blast
  have "animate newConfig = lit ''none''" by (simp add: newConfig_def)
  with stringField_animate[OF valid_fields(2)[OF assms]] assms l show ?thesis
    by (simp add: parseConfig_def)
qed

lemma parseConfig_invalid:
  assumes "\<not> instanceOfSwipeNavigationConfig raw"
  shows "parseConfig numberToString raw = Inr (None, [Logged ERROR ''Found invalid configuration.''])"
  using assms by (simp add: parseConfig_def)

lemma parseConfig_cases:
  obtains c where "instanceOfSwipeNavigationConfig raw" "parseConfig numberToString raw = Inr (Some c, [])"
  | "\<not> instanceOfSwipeNavigationConfig raw"
      "parseConfig numberToString raw = Inr (None, [Logged ERROR ''Found invalid configuration.''])"
  using parseConfig_valid parseConfig_invalid by blast



lemma wrapYes_invalid: "\<not> instanceOfSwipeNavigationConfig wrapYes"
  by (simp add: wrapYes_def instanceOfSwipeNavigationConfig_def getProp_def optional_def isBoolean_def)


subsection \<open>One read, and a sequence of reads\<close>

lemma notified_Called: "notified (map Called ns) = ns"
  by (induction ns) auto

lemma readConfig_step:
  "\<exists>st' eff. readConfig sR sC n st raw = Inr (st', eff)
     \<and> configObservers st' = configObservers st
     \<and> sR (rawConfig st') = sR raw
     \<and> notified eff =
         (if sR raw \<noteq> sR (rawConfig st)
             \<and> (\<exists>c. parseConfig n raw = Inr (Some c, []) \<and> sC c \<noteq> sC (currentConfig st))
          then configObservers st else [])"
proof (cases rule: parseConfig_cases[of raw n])
  case (1 c)
  then show ?thesis by (simp add: readConfig_def notified_Called)
next
  case 2
  then show ?thesis by (simp add: readConfig_def)
qed

text \<open>
  A read on the host does to the static fields, read at its time, what \<open>readConfig\<close> does
  to them, and keeps either the raw value it had or the fetched one.
\<close>

lemma readConfigOnHost_readConfig:
  "\<exists>st' eff. readConfigOnHost sR sC n host st raw = Inr (st', eff)
     \<and> readConfig sR sC n (staticsAt host st) (valueOf host raw) = Inr (staticsAt host st', eff)
     \<and> rawConfig st' = (if sR (valueOf host raw) = sR (valueOf host (rawConfig st))
                         then rawConfig st else raw)"
proof (cases rule: parseConfig_cases[of "valueOf host raw" n])
  case (1 c)
  then show ?thesis by (simp add: readConfigOnHost_def readConfig_def staticsAt_def)
next
  case 2
  then show ?thesis by (simp add: readConfigOnHost_def readConfig_def staticsAt_def)
qed








lemma observedStatics_fields:
  "currentConfig observedStatics = newConfig" "rawConfig observedStatics = Constant JNull"
  "configObservers observedStatics = [7, 9]"
  by (simp_all add: observedStatics_def registerConfigObserver_def initialStaticsOnHost_def)







text \<open>
  Claim C7, as the claim states it, fails where the same invalid value is fetched twice:
  the first read logs the error, the second stops at "Config is identical." before the
  value is validated and logs no error.
\<close>

theorem repeated_invalid_configuration_logs_no_error:
  "\<not> instanceOfSwipeNavigationConfig wrapYes
   \<and> readConfig Inl Inr integerToString initialStatics wrapYes
       = Inr (initialStatics\<lparr>rawConfig := wrapYes\<rparr>,
              [Logged DEBUG ''Attempting to read config...'', Logged ERROR ''Found invalid configuration.''])
   \<and> readConfig Inl Inr integerToString (initialStatics\<lparr>rawConfig := wrapYes\<rparr>) wrapYes
       = Inr (initialStatics\<lparr>rawConfig := wrapYes\<rparr>,
              [Logged DEBUG ''Attempting to read config...'', Logged DEBUG ''Config is identical.''])
   \<and> errorsLogged [Logged DEBUG ''Attempting to read config...'', Logged DEBUG ''Config is identical.''] = []"
proof -
  have "wrapYes \<noteq> JNull" by (simp add: wrapYes_def)
  then show ?thesis
    using wrapYes_invalid
    by (simp add: readConfig_def parseConfig_invalid initialStatics_def)
qed

text \<open>
  Claim C7, amended. If a fetched raw value fails schema validation, the read never throws,
  keeps the current snapshot (every field of it) and the observers, and calls no observer;
  it logs the error "Found invalid configuration." exactly when the text of the raw value
  differs from the text of the raw value saved by the read before.
\<close>

theorem invalid_configuration_keeps_snapshot:
  assumes "\<not> instanceOfSwipeNavigationConfig raw"
  shows "\<exists>st' eff. readConfig stringifyRaw stringifyConfig numberToString st raw = Inr (st', eff)
           \<and> currentConfig st' = currentConfig st
           \<and> configObservers st' = configObservers st
           \<and> notified eff = []
           \<and> errorsLogged eff =
               (if stringifyRaw raw = stringifyRaw (rawConfig st) then []
                else [''Found invalid configuration.''])"
  using assms by (simp add: readConfig_def parseConfig_invalid)

text \<open>After \<open>{wrap: false}\<close> was read, the invalid \<open>{wrap: "yes"}\<close> leaves the snapshot as it is.\<close>

theorem invalid_configuration_keeps_snapshot_witness:
  "\<not> instanceOfSwipeNavigationConfig wrapYes
   \<and> readConfig Inl Inr integerToString wrapOffStatics wrapYes
       = Inr (wrapOffStatics\<lparr>rawConfig := wrapYes\<rparr>,
              [Logged DEBUG ''Attempting to read config...'', Logged ERROR ''Found invalid configuration.''])
   \<and> currentConfig (wrapOffStatics\<lparr>rawConfig := wrapYes\<rparr>) = currentConfig wrapOffStatics
   \<and> notified [Logged DEBUG ''Attempting to read config...'', Logged ERROR ''Found invalid configuration.''] = []
   \<and> errorsLogged [Logged DEBUG ''Attempting to read config...'', Logged ERROR ''Found invalid configuration.'']
       = [''Found invalid configuration.'']"
proof -
  have "wrapYes \<noteq> wrapOff" by (simp add: wrapYes_def wrapOff_def)
  then have "readConfig Inl Inr integerToString wrapOffStatics wrapYes
       = Inr (wrapOffStatics\<lparr>rawConfig := wrapYes\<rparr>,
              [Logged DEBUG ''Attempting to read config...'', Logged ERROR ''Found invalid configuration.''])"
    using wrapYes_invalid by (simp add: readConfig_def parseConfig_invalid wrapOffStatics_def)
  with invalid_configuration_keeps_snapshot[OF wrapYes_invalid, of Inl Inr integerToString wrapOffStatics]
  show ?thesis using wrapYes_invalid by simp
qed

section \<open>Properties of the target-tab search\<close>

lemma follows_append:
  "follows f n (cs @ d # ds) e = (follows f n cs d \<and> follows f d ds e)"
  by (induction cs arbitrary: n) auto

lemma follows_up:
  "i \<le> j \<Longrightarrow> (\<And>m. i \<le> m \<Longrightarrow> m < j \<Longrightarrow> f m = m + 1) \<Longrightarrow> f j = e \<Longrightarrow> follows f i [i + 1..j] e"
proof (induction "nat (j - i)" arbitrary: i)
  case 0
  then have "i = j" by simp
  with 0 show ?case by simp
next
  case (Suc k)
  then have lt: "i < j" by linarith
  then have "[i + 1..j] = (i + 1) # [i + 1 + 1..j]" by (simp add: upto_rec1)
  moreover have "f i = i + 1" using Suc.prems(2) lt by simp
  moreover have "follows f (i + 1) [i + 1 + 1..j] e"
    using Suc.hyps(1)[of "i + 1"] Suc.hyps(2) Suc.prems lt by force
  ultimately show ?case by simp
qed

lemma follows_down:
  "i \<le> j \<Longrightarrow> (\<And>m. i < m \<Longrightarrow> m \<le> j \<Longrightarrow> f m = m - 1) \<Longrightarrow> f i = e \<Longrightarrow> follows f j (rev [i..j - 1]) e"
proof (induction "nat (j - i)" arbitrary: j)
  case 0
  then have "i = j" by simp
  with 0 show ?case by simp
next
  case (Suc k)
  then have lt: "i < j" by linarith
  then have "[i..j - 1] = [i..j - 1 - 1] @ [j - 1]" by (simp add: upto_rec2)
  then have "rev [i..j - 1] = (j - 1) # rev [i..j - 1 - 1]" by simp
  moreover have "f j = j - 1" using Suc.prems(2) lt by simp
  moreover have "follows f (j - 1) (rev [i..j - 1 - 1]) e"
    using Suc.hyps(1)[of "j - 1"] Suc.hyps(2) Suc.prems lt by force
  ultimately show ?case by simp
qed

lemma search_along:
  assumes "follows (\<lambda>n. wrapIndex cfg tabs (n + increment)) n cs e"
    and "\<forall>c \<in> set cs. 0 \<le> c \<and> c < int (length tabs) \<and> c \<noteq> a"
    and "e = a \<or> e = - 1"
    and "length cs < k"
  shows "nextTabSearchWithin k cfg tabs a increment n =
           Some (Inr (case find (eligible cfg tabs) cs of
                        Some i \<Rightarrow> (i, None)
                      | None \<Rightarrow> (e, Some (stopReasonAt a e))))"
  using assms
proof (induction cs arbitrary: n k)
  case Nil
  then obtain k' where k: "k = Suc k'" by (cases k) auto
  from Nil have "wrapIndex cfg tabs (n + increment) = e" by simp
  with Nil.prems(3) show ?case unfolding k by (auto simp: stopReasonAt_def Let_def)
next
  case (Cons c cs)
  then obtain k' where k: "k = Suc k'" by (cases k) auto
  from Cons.prems have st: "wrapIndex cfg tabs (n + increment) = c"
    and fl: "follows (\<lambda>n. wrapIndex cfg tabs (n + increment)) c cs e"
    and c: "0 \<le> c" "c < int (length tabs)" "c \<noteq> a" "c \<noteq> - 1"
    and rest: "\<forall>c \<in> set cs. 0 \<le> c \<and> c < int (length tabs) \<and> c \<noteq> a"
    and len: "length cs < k'" by (auto simp: k)
  note IH = Cons.IH[OF fl rest Cons.prems(3) len]
  show ?case
  proof (cases "eligible cfg tabs c")
    case True
    then show ?thesis unfolding k using st c by (auto simp: eligible_def Let_def)
  next
    case False
    then show ?thesis unfolding k using st c IH by (auto simp: eligible_def Let_def)
  qed
qed

lemma within_search:
  "nextTabSearchWithin k cfg tabs a increment n = Some r \<Longrightarrow>
   nextTabSearch cfg tabs a increment n = Some r"
proof (induction k arbitrary: n)
  case 0
  then show ?case by simp
next
  case (Suc k)
  show ?case
    apply (subst nextTabSearch.simps)
    using Suc.prems Suc.IH
    by (auto simp: Let_def split: if_splits)
qed


lemma follows_visitOrder:
  assumes a: "0 \<le> a" "a < int (length tabs)"
  shows "follows (\<lambda>n. wrapIndex cfg tabs (n + (if d then - 1 else 1))) a
           (visitOrder (wrap cfg) (int (length tabs)) a d) (if wrap cfg then a else - 1)"
proof -
  let ?len = "int (length tabs)"
  let ?up = "\<lambda>n. wrapIndex cfg tabs (n + 1)"
  let ?down = "\<lambda>n. wrapIndex cfg tabs (n + - 1)"
  show ?thesis
  proof (cases d)
    case False
    have seg1: "follows ?up a [a + 1..?len - 1] (if wrap cfg then 0 else - 1)"
      using a by (intro follows_up) (auto simp: wrapIndex_def)
    show ?thesis
    proof (cases "wrap cfg \<and> 0 < a")
      case True
      have "follows ?up 0 [0 + 1..a - 1] a"
        using a True by (intro follows_up) (auto simp: wrapIndex_def)
      moreover have "[0..a - 1] = 0 # [0 + 1..a - 1]"
        using True by (simp add: upto_rec1)
      ultimately show ?thesis
        using seg1 True False by (simp add: visitOrder_def follows_append)
    next
      case nw: False
      then show ?thesis using seg1 False a by (auto simp: visitOrder_def)
    qed
  next
    case True
    have seg1: "follows ?down a (rev [0..a - 1]) (if wrap cfg then ?len - 1 else - 1)"
      using a by (intro follows_down) (auto simp: wrapIndex_def)
    show ?thesis
    proof (cases "wrap cfg \<and> a < ?len - 1")
      case w: True
      have "follows ?down (?len - 1) (rev [a + 1..?len - 1 - 1]) a"
        using a w by (intro follows_down) (auto simp: wrapIndex_def)
      moreover have "rev [a + 1..?len - 1] = (?len - 1) # rev [a + 1..?len - 1 - 1]"
        using w by (simp add: upto_rec2)
      ultimately show ?thesis
        using seg1 True w by (simp add: visitOrder_def follows_append)
    next
      case nw: False
      then have "wrap cfg \<Longrightarrow> ?len - 1 = a" using a by linarith
      then show ?thesis using seg1 True a nw by (cases "wrap cfg") (simp_all add: visitOrder_def)
    qed
  qed
qed

lemma visitOrder_range:
  "0 \<le> a \<Longrightarrow> a < len \<Longrightarrow> c \<in> set (visitOrder w len a d) \<Longrightarrow> 0 \<le> c \<and> c < len \<and> c \<noteq> a"
  by (auto simp: visitOrder_def split: if_splits)

lemma visitOrder_length:
  "0 \<le> a \<Longrightarrow> a < int n \<Longrightarrow> length (visitOrder w (int n) a d) < n"
  by (auto simp: visitOrder_def)

lemma search_one_cycle:
  assumes a: "0 \<le> a" "a < int (length tabs)"
  shows "nextTabSearchWithin (length tabs) cfg tabs a (if d then - 1 else 1) a =
           Some (Inr (case find (eligible cfg tabs) (visitOrder (wrap cfg) (int (length tabs)) a d) of
                        Some i \<Rightarrow> (i, None)
                      | None \<Rightarrow> (if wrap cfg then a else - 1,
                                 Some (stopReasonAt a (if wrap cfg then a else - 1)))))"
  by (rule search_along[OF follows_visitOrder[OF a]])
     (use a visitOrder_range[OF a] in \<open>auto simp: visitOrder_length\<close>)

lemma indexOf_range: "indexOf xs x = - 1 \<or> (0 \<le> indexOf xs x \<and> indexOf xs x < int (length xs))"
  by (induction xs) (auto simp: Let_def)

lemma getActiveTabIndex_range:
  "getActiveTabIndex c = - 1 \<or> (0 \<le> getActiveTabIndex c \<and> getActiveTabIndex c < int (length (getTabsArray c)))"
proof (cases "getActiveTab c")
  case None
  then show ?thesis by (simp add: getActiveTabIndex_def)
next
  case (Some t)
  then show ?thesis using indexOf_range[of "getTabsArray c" t] by (simp add: getActiveTabIndex_def)
qed

lemma getNextTabIndex_eq:
  "getNextTabIndex cfg c d =
     Some (Inr (if getActiveTabIndex c = - 1 then (- 1, [Logged WARN ''Can't determine the active tab''])
                else (case find (eligible cfg (getTabsArray c))
                             (visitOrder (wrap cfg) (int (length (getTabsArray c))) (getActiveTabIndex c) d) of
                        Some i \<Rightarrow> (i, [])
                      | None \<Rightarrow> (- 1, [Logged WARN (stopReasonAt (getActiveTabIndex c)
                                                      (if wrap cfg then getActiveTabIndex c else - 1))]))))"
proof (cases "getActiveTabIndex c = - 1")
  case True
  then show ?thesis by (simp add: getNextTabIndex_def)
next
  case False
  with getActiveTabIndex_range[of c]
  have a: "0 \<le> getActiveTabIndex c" "getActiveTabIndex c < int (length (getTabsArray c))" by auto
  show ?thesis
    using False within_search[OF search_one_cycle[OF a, of cfg d]]
    by (simp add: getNextTabIndex_def Let_def split: option.splits)
qed

lemma getNextTabIndex_result:
  obtains i warned where "getNextTabIndex cfg c d = Some (Inr (i, warned))"
    "i = - 1 \<or> (0 \<le> i \<and> i < int (length (getTabsArray c)) \<and> i \<noteq> getActiveTabIndex c \<and> eligible cfg (getTabsArray c) i)"
proof (cases "getActiveTabIndex c = - 1")
  case True
  then show ?thesis using that by (simp add: getNextTabIndex_eq)
next
  case False
  with getActiveTabIndex_range[of c]
  have a: "0 \<le> getActiveTabIndex c" "getActiveTabIndex c < int (length (getTabsArray c))" by auto
  show ?thesis
  proof (cases "find (eligible cfg (getTabsArray c))
                  (visitOrder (wrap cfg) (int (length (getTabsArray c))) (getActiveTabIndex c) d)")
    case None
    then show ?thesis using that False by (simp add: getNextTabIndex_eq)
  next
    case (Some i)
    then have "eligible cfg (getTabsArray c) i"
      and "i \<in> set (visitOrder (wrap cfg) (int (length (getTabsArray c))) (getActiveTabIndex c) d)"
      by (auto simp: find_Some_iff)
    with visitOrder_range[OF a] Some False show ?thesis using that by (simp add: getNextTabIndex_eq)
  qed
qed

lemma search_examples:
  "getNextTabIndex (newConfig\<lparr>skip_hidden := False\<rparr>) (Some (tabStrip 4 2)) False = Some (Inr (3, []))"
  "getNextTabIndex (newConfig\<lparr>skip_hidden := False\<rparr>) (Some (tabStrip 4 3)) False = Some (Inr (0, []))"
  "getNextTabIndex (newConfig\<lparr>skip_tabs := [IntVal 1, IntVal 2]\<rparr>) (Some (tabStrip 4 0)) False = Some (Inr (3, []))"
  "getNextTabIndex (newConfig\<lparr>skip_tabs := [IntVal 1, IntVal 2]\<rparr>) (Some (tabStrip 3 0)) False
     = Some (Inr (- 1, [Logged WARN ''Error, no viable tabs found for swiping.'']))"
  "getNextTabIndex (newConfig\<lparr>skip_tabs := [IntVal 1, IntVal 2], wrap := False\<rparr>) (Some (tabStrip 4 0)) False = Some (Inr (3, []))"
  "getNextTabIndex (newConfig\<lparr>skip_tabs := [IntVal 1, IntVal 2], wrap := False\<rparr>) (Some (tabStrip 3 0)) False
     = Some (Inr (- 1, [Logged WARN ''Edge has been reached and wrap is disabled.'']))"
  "getNextTabIndex (newConfig\<lparr>skip_tabs := [IntVal 1, IntVal 2]\<rparr>) (Some (tabStrip 4 0)) True = Some (Inr (3, []))"
  "getNextTabIndex (newConfig\<lparr>skip_tabs := [IntVal 1, IntVal 2]\<rparr>) (Some (tabStrip 3 0)) True
     = Some (Inr (- 1, [Logged WARN ''Error, no viable tabs found for swiping.'']))"
  "getNextTabIndex (newConfig\<lparr>wrap := False\<rparr>) (Some (tabStrip 4 3)) False
     = Some (Inr (- 1, [Logged WARN ''Edge has been reached and wrap is disabled.'']))"
  unfolding getNextTabIndex_eq by code_simp+

lemma swipe_left_example:
  "handlePointerEnd (newConfig\<lparr>skip_hidden := False\<rparr>) (examplePage (tabStrip 4 2))
     \<lparr> xDown = Some 300, yDown = Some 100, xDiff = Some 200, yDiff = Some 0 \<rparr>
   = Some ([Logged INFO ''Swipe detected, changing tab to the right.'', DispatchClick 3], Inr noGesture)"
  unfolding handlePointerEnd_def getNextTabIndex_eq by code_simp

text \<open>
  Claim C3. The search starts from the index of the selected tab among the tabs of the
  strip and returns the first index that is not skipped in this order: step by step in the
  direction of the swipe up to the edge and, only when wrap-around is on, on from the
  opposite end up to the index before the active one; an index is skipped when it is in the
  skip list or, with skip-hidden, when its tab is hidden; when no index is left the result
  is \<open>-1\<close>, no target. A swipe of the finger to the left steps up (\<open>directionLeft\<close> is
  false). With four tabs, tab 2 active, wrap on and nothing skipped, swiping left gives 3
  (also through the pointer-end handler, which then clicks tab 3), and from 3 it gives 0;
  without wrap it gives no target from 3. With 1 and 2 in the skip list and tab 0 active
  the search lands on 3, stepping up or, with wrap, stepping down; with three tabs only it
  reports no target.
\<close>

theorem target_tab_search_follows_visit_order:
  "(\<exists>warned. getNextTabIndex cfg container directionLeft =
       Some (Inr (if getActiveTabIndex container = - 1 then - 1
                  else searchSpec cfg (getTabsArray container) (getActiveTabIndex container) directionLeft,
                  warned)))
   \<and> getNextTabIndex (newConfig\<lparr>skip_hidden := False\<rparr>) (Some (tabStrip 4 2)) False = Some (Inr (3, []))
   \<and> getNextTabIndex (newConfig\<lparr>skip_hidden := False\<rparr>) (Some (tabStrip 4 3)) False = Some (Inr (0, []))
   \<and> handlePointerEnd (newConfig\<lparr>skip_hidden := False\<rparr>) (examplePage (tabStrip 4 2))
         \<lparr> xDown = Some 300, yDown = Some 100, xDiff = Some 200, yDiff = Some 0 \<rparr>
       = Some ([Logged INFO ''Swipe detected, changing tab to the right.'', DispatchClick 3], Inr noGesture)
   \<and> getNextTabIndex (newConfig\<lparr>wrap := False\<rparr>) (Some (tabStrip 4 3)) False
       = Some (Inr (- 1, [Logged WARN ''Edge has been reached and wrap is disabled.'']))
   \<and> getNextTabIndex (newConfig\<lparr>skip_tabs := [IntVal 1, IntVal 2]\<rparr>) (Some (tabStrip 4 0)) False
       = Some (Inr (3, []))
   \<and> getNextTabIndex (newConfig\<lparr>skip_tabs := [IntVal 1, IntVal 2]\<rparr>) (Some (tabStrip 3 0)) False
       = Some (Inr (- 1, [Logged WARN ''Error, no viable tabs found for swiping.'']))
   \<and> getNextTabIndex (newConfig\<lparr>skip_tabs := [IntVal 1, IntVal 2]\<rparr>) (Some (tabStrip 4 0)) True
       = Some (Inr (3, []))
   \<and> getNextTabIndex (newConfig\<lparr>skip_tabs := [IntVal 1, IntVal 2]\<rparr>) (Some (tabStrip 3 0)) True
       = Some (Inr (- 1, [Logged WARN ''Error, no viable tabs found for swiping.'']))"
proof -
  have "\<exists>warned. getNextTabIndex cfg container directionLeft =
       Some (Inr (if getActiveTabIndex container = - 1 then - 1
                  else searchSpec cfg (getTabsArray container) (getActiveTabIndex container) directionLeft,
                  warned))"
    by (simp add: getNextTabIndex_eq searchSpec_def split: option.splits)
  then show ?thesis
    using search_examples swipe_left_example by blast
qed

text \<open>
  Claim C10. For every tab strip, configuration and direction the search returns, without
  an exception, either \<open>-1\<close> or an index \<open>i\<close> with \<open>0 \<le> i\<close>, \<open>i\<close> below the number of
  tabs, \<open>i\<close> other than the active index, \<open>i\<close> not in the skip list and, when skip-hidden
  is on, tab \<open>i\<close> not hidden.
\<close>

theorem target_index_is_eligible:
  "\<exists>i warned. getNextTabIndex cfg container directionLeft = Some (Inr (i, warned))
     \<and> (i = - 1
        \<or> (0 \<le> i \<and> i < int (length (getTabsArray container))
           \<and> i \<noteq> getActiveTabIndex container
           \<and> IntVal i \<notin> set (skip_tabs cfg)
           \<and> (skip_hidden cfg \<longrightarrow> \<not> displayNone (snd (getTabsArray container ! nat i)))))"
  using getNextTabIndex_result[of cfg container directionLeft]
  by (metis eligible_def)

text \<open>
  On a strip whose tab 1 is hidden, with 2 in the skip list and tab 0 active, the search
  stepping up returns 3.
\<close>

theorem target_index_is_eligible_witness:
  "getNextTabIndex (newConfig\<lparr>skip_tabs := [IntVal 2]\<rparr>) (Some hiddenStrip) False = Some (Inr (3, []))
   \<and> (3::int) < int (length (getTabsArray (Some hiddenStrip)))
   \<and> 3 \<noteq> getActiveTabIndex (Some hiddenStrip)
   \<and> IntVal 3 \<notin> set (skip_tabs (newConfig\<lparr>skip_tabs := [IntVal 2]\<rparr>))
   \<and> skip_hidden (newConfig\<lparr>skip_tabs := [IntVal 2]\<rparr>)
   \<and> \<not> displayNone (snd (getTabsArray (Some hiddenStrip) ! nat 3))"
proof -
  have "getNextTabIndex (newConfig\<lparr>skip_tabs := [IntVal 2]\<rparr>) (Some hiddenStrip) False = Some (Inr (3, []))"
    unfolding getNextTabIndex_eq by code_simp
  with target_index_is_eligible[of "newConfig\<lparr>skip_tabs := [IntVal 2]\<rparr>" "Some hiddenStrip" False]
  show ?thesis by (auto simp: newConfig_def)
qed

text \<open>
  Claim C4. For every tab strip, active tab, configuration and direction the search ends
  and returns a result: when the active tab is found among the tabs, the loop ends within
  as many runs of its body as there are tabs, which is one full cycle; the result is \<open>-1\<close>
  when the active tab cannot be determined and when no index other than the active one is
  eligible (every tab in the skip list or hidden, for instance).
\<close>

theorem target_tab_search_terminates:
  "(\<exists>i warned. getNextTabIndex cfg container directionLeft = Some (Inr (i, warned))
      \<and> (getActiveTabIndex container = - 1 \<longrightarrow> i = - 1)
      \<and> ((\<forall>j. 0 \<le> j \<and> j < int (length (getTabsArray container)) \<and> j \<noteq> getActiveTabIndex container
               \<longrightarrow> \<not> eligible cfg (getTabsArray container) j) \<longrightarrow> i = - 1))
   \<and> (getActiveTabIndex container \<noteq> - 1 \<longrightarrow>
        (\<exists>r. nextTabSearchWithin (length (getTabsArray container)) cfg (getTabsArray container)
                (getActiveTabIndex container) (if directionLeft then - 1 else 1) (getActiveTabIndex container)
                = Some (Inr r)
            \<and> nextTabSearch cfg (getTabsArray container)
                (getActiveTabIndex container) (if directionLeft then - 1 else 1) (getActiveTabIndex container)
                = Some (Inr r)))"
proof -
  obtain i warned where r: "getNextTabIndex cfg container directionLeft = Some (Inr (i, warned))"
    and i: "i = - 1 \<or> (0 \<le> i \<and> i < int (length (getTabsArray container))
              \<and> i \<noteq> getActiveTabIndex container \<and> eligible cfg (getTabsArray container) i)"
    by (rule getNextTabIndex_result)
  have undetermined: "getActiveTabIndex container = - 1 \<longrightarrow> i = - 1"
    using r by (auto simp: getNextTabIndex_eq)
  have none: "(\<forall>j. 0 \<le> j \<and> j < int (length (getTabsArray container)) \<and> j \<noteq> getActiveTabIndex container
               \<longrightarrow> \<not> eligible cfg (getTabsArray container) j) \<longrightarrow> i = - 1"
    using i by blast
  have bounded: "\<exists>r. nextTabSearchWithin (length (getTabsArray container)) cfg (getTabsArray container)
                (getActiveTabIndex container) (if directionLeft then - 1 else 1) (getActiveTabIndex container)
                = Some (Inr r)
            \<and> nextTabSearch cfg (getTabsArray container)
                (getActiveTabIndex container) (if directionLeft then - 1 else 1) (getActiveTabIndex container)
                = Some (Inr r)"
    if "getActiveTabIndex container \<noteq> - 1"
  proof -
    from that getActiveTabIndex_range[of container]
    have a: "0 \<le> getActiveTabIndex container"
      "getActiveTabIndex container < int (length (getTabsArray container))" by auto
    from search_one_cycle[OF a, of cfg directionLeft] within_search show ?thesis by blast
  qed
  show ?thesis using r undetermined none bounded by blast
qed

text \<open>
  With four tabs all in the skip list, tab 1 active and wrap on, the loop stops after four
  runs of its body, back at index 1 (three runs are not enough), and the search reports no
  target; so it does on a strip with no selected tab.
\<close>

theorem target_tab_search_terminates_witness:
  "getNextTabIndex (newConfig\<lparr>skip_tabs := [IntVal 0, IntVal 1, IntVal 2, IntVal 3]\<rparr>)
       (Some (tabStrip 4 1)) True
     = Some (Inr (- 1, [Logged WARN ''Error, no viable tabs found for swiping.'']))
   \<and> getActiveTabIndex (Some (tabStrip 4 1)) = 1
   \<and> nextTabSearchWithin 4 (newConfig\<lparr>skip_tabs := [IntVal 0, IntVal 1, IntVal 2, IntVal 3]\<rparr>)
        (getTabsArray (Some (tabStrip 4 1))) 1 (- 1) 1
     = Some (Inr (1, Some ''Error, no viable tabs found for swiping.''))
   \<and> nextTabSearchWithin 3 (newConfig\<lparr>skip_tabs := [IntVal 0, IntVal 1, IntVal 2, IntVal 3]\<rparr>)
        (getTabsArray (Some (tabStrip 4 1))) 1 (- 1) 1
     = None
   \<and> getNextTabIndex newConfig (Some [\<lparr> paperTab = True, ironSelected = False, displayNone = False \<rparr>]) False
     = Some (Inr (- 1, [Logged WARN ''Can't determine the active tab'']))"
proof -
  have a: "getActiveTabIndex (Some (tabStrip 4 1)) = 1" by code_simp
  have b: "nextTabSearchWithin 4 (newConfig\<lparr>skip_tabs := [IntVal 0, IntVal 1, IntVal 2, IntVal 3]\<rparr>)
        (getTabsArray (Some (tabStrip 4 1))) 1 (- 1) 1
     = Some (Inr (1, Some ''Error, no viable tabs found for swiping.''))" by code_simp
  have c: "nextTabSearchWithin 3 (newConfig\<lparr>skip_tabs := [IntVal 0, IntVal 1, IntVal 2, IntVal 3]\<rparr>)
        (getTabsArray (Some (tabStrip 4 1))) 1 (- 1) 1 = None" by code_simp
  have d: "getNextTabIndex (newConfig\<lparr>skip_tabs := [IntVal 0, IntVal 1, IntVal 2, IntVal 3]\<rparr>)
       (Some (tabStrip 4 1)) True
     = Some (Inr (- 1, [Logged WARN ''Error, no viable tabs found for swiping.'']))"
    unfolding getNextTabIndex_eq by code_simp
  have e: "getNextTabIndex newConfig (Some [\<lparr> paperTab = True, ironSelected = False, displayNone = False \<rparr>]) False
     = Some (Inr (- 1, [Logged WARN ''Can't determine the active tab'']))"
    unfolding getNextTabIndex_eq by code_simp
  from target_tab_search_terminates
         [of "newConfig\<lparr>skip_tabs := [IntVal 0, IntVal 1, IntVal 2, IntVal 3]\<rparr>" "Some (tabStrip 4 1)" True]
  show ?thesis using a b c d e by simp
qed

section \<open>Properties of the gesture engine\<close>

lemma click_returns:
  assumes "animate cfg \<in> set animateVariants" "index < int (length (getTabsArray (tabsContainer pg)))"
  shows "\<exists>done. click cfg pg index d = (done, Inr ())"
  using assms by (auto simp: click_def clickTab_def animateVariants_def Let_def)

lemma handlePointerEnd_clears:
  assumes "animate cfg \<in> set animateVariants"
  shows "\<exists>eff. handlePointerEnd cfg pg g = Some (eff, Inr noGesture)"
proof (cases "xDiff g")
  case None
  then show ?thesis by (simp add: handlePointerEnd_def)
next
  case dx: (Some dx)
  show ?thesis
  proof (cases "yDiff g")
    case None
    then show ?thesis using dx by (simp add: handlePointerEnd_def)
  next
    case dy: (Some dy)
    obtain i warned
      where r: "getNextTabIndex cfg (tabsContainer pg) (if rtl pg then \<not> dx < 0 else dx < 0)
                  = Some (Inr (i, warned))"
        and i: "i = - 1 \<or> i < int (length (getTabsArray (tabsContainer pg)))"
      using getNextTabIndex_result[of cfg "tabsContainer pg" "if rtl pg then \<not> dx < 0 else dx < 0"]
      by metis
    from i have "i < int (length (getTabsArray (tabsContainer pg)))" by auto
    from click_returns[OF assms this]
    obtain eff where c: "click cfg pg i (dx < 0) = (eff, Inr ())" by blast
    show ?thesis
      using dx dy r c by (simp add: handlePointerEnd_def Let_def)
  qed
qed

lemma handlePointerStart_disabled:
  assumes "\<not> enable cfg" "event \<noteq> OtherEvent"
  shows "\<exists>eff. handlePointerStart cfg event g = (eff, Inr g)"
  using assms by (cases event) auto

text \<open>
  Claim C5, as the claim states it, fails where a pointer start is ignored because swipe
  navigation is disabled: after a touch was dragged from (300, 100) to (50, 100) all four
  fields are set, and a pointer start under a configuration with \<open>enable\<close> off returns at
  once and clears none of them.
\<close>

theorem disabled_pointer_start_clears_nothing:
  "deliverAll False newConfig (examplePage (tabStrip 4 1))
     [Touchstart (TouchEvent [(300, 100)] []), Touchmove (TouchEvent [(50, 100)] [])] noGesture
     = Some ([], trackedGesture)
   \<and> handlePointerStart (newConfig\<lparr>enable := False\<rparr>) (TouchEvent [(50, 100), (400, 300)] []) trackedGesture
     = ([Logged DEBUG ''Ignoring touch: Swipe navigation is disabled in the config.''], Inr trackedGesture)
   \<and> xDown trackedGesture = Some 300 \<and> yDown trackedGesture = Some 100
   \<and> xDiff trackedGesture = Some 250 \<and> yDiff trackedGesture = Some 0"
  by (simp add: newConfig_def noGesture_def trackedGesture_def examplePage_def handlePointerMove_def
        truthy_def trackTo_def)

text \<open>
  Claim C5, amended. The pointer-end handler, with an animation mode that is one of the
  four variants, always returns and leaves all four fields cleared together, whatever the
  outcome of the swipe. A pointer start that is ignored because swipe navigation is
  disabled in the configuration changes none of the four fields.
\<close>

theorem coordinates_cleared_on_pointer_end:
  "(animate cfg \<in> set animateVariants \<longrightarrow>
      (\<exists>eff. handlePointerEnd cfg pg g = Some (eff, Inr noGesture)))
   \<and> xDown noGesture = None \<and> yDown noGesture = None \<and> xDiff noGesture = None \<and> yDiff noGesture = None
   \<and> (\<not> enable cfg \<and> event \<noteq> OtherEvent \<longrightarrow>
      (\<exists>eff. handlePointerStart cfg event g = (eff, Inr g)))"
  using handlePointerEnd_clears[of cfg pg g] handlePointerStart_disabled[of cfg event g]
  by (simp add: noGesture_def)

text \<open>
  Under the default configuration a pointer end clears the four fields after a swipe that
  changes the tab and after a vertical movement; with \<open>enable\<close> off a mouse press leaves
  them as they are.
\<close>

theorem coordinates_cleared_on_pointer_end_witness:
  "animate newConfig \<in> set animateVariants
   \<and> handlePointerEnd newConfig (examplePage (tabStrip 4 1)) trackedGesture
       = Some ([Logged INFO ''Swipe detected, changing tab to the right.'', DispatchClick 2], Inr noGesture)
   \<and> handlePointerEnd newConfig (examplePage (tabStrip 4 1))
        \<lparr> xDown = Some 300, yDown = Some 100, xDiff = Some 20, yDiff = Some 90 \<rparr>
       = Some ([Logged DEBUG ''Swipe ignored, vertical movement.''], Inr noGesture)
   \<and> \<not> enable (newConfig\<lparr>enable := False\<rparr>)
   \<and> handlePointerStart (newConfig\<lparr>enable := False\<rparr>) (MouseEvent 10 20 []) trackedGesture
       = ([Logged DEBUG ''Ignoring click: Swipe navigation is disabled in the config.''], Inr trackedGesture)"
proof -
  have a: "animate newConfig \<in> set animateVariants" by (simp add: newConfig_def animateVariants_def)
  have b: "handlePointerEnd newConfig (examplePage (tabStrip 4 1)) trackedGesture
       = Some ([Logged INFO ''Swipe detected, changing tab to the right.'', DispatchClick 2], Inr noGesture)"
    unfolding handlePointerEnd_def getNextTabIndex_eq by code_simp
  have c: "handlePointerEnd newConfig (examplePage (tabStrip 4 1))
        \<lparr> xDown = Some 300, yDown = Some 100, xDiff = Some 20, yDiff = Some 90 \<rparr>
       = Some ([Logged DEBUG ''Swipe ignored, vertical movement.''], Inr noGesture)"
    unfolding handlePointerEnd_def getNextTabIndex_eq by code_simp
  have d: "\<not> enable (newConfig\<lparr>enable := False\<rparr>)" by simp
  have e: "handlePointerStart (newConfig\<lparr>enable := False\<rparr>) (MouseEvent 10 20 []) trackedGesture
       = ([Logged DEBUG ''Ignoring click: Swipe navigation is disabled in the config.''], Inr trackedGesture)"
    by simp
  from coordinates_cleared_on_pointer_end
         [of newConfig "examplePage (tabStrip 4 1)" trackedGesture "MouseEvent 10 20 []"]
  show ?thesis using a b c d e by simp
qed

text \<open>
  Claim C6 on the code: one finger goes down at (300, 100) and is dragged to (50, 100), a
  second finger goes down (the touch start then carries two touches), a finger is lifted.
  The touch start with two touches clears the start coordinates but not the deltas, and
  the touch end finds a horizontal delta of 250 pixels, above 15 percent of the screen
  width, and clicks tab 2.
\<close>

theorem multitouch_after_drag_navigates:
  "deliverAll False newConfig (examplePage (tabStrip 4 1))
     [Touchstart (TouchEvent [(300, 100)] []),
      Touchmove (TouchEvent [(50, 100)] []),
      Touchstart (TouchEvent [(50, 100), (400, 300)] []),
      Touchend] noGesture
   = Some ([Logged DEBUG ''Ignoring touch: multiple touchpoints detected.'',
            Logged INFO ''Swipe detected, changing tab to the right.'',
            DispatchClick 2], noGesture)
   \<and> navigations [Logged DEBUG ''Ignoring touch: multiple touchpoints detected.'',
            Logged INFO ''Swipe detected, changing tab to the right.'',
            DispatchClick 2] = [2]"
  proof -
  have "deliverAll False newConfig (examplePage (tabStrip 4 1))
     [Touchstart (TouchEvent [(300, 100)] []),
      Touchmove (TouchEvent [(50, 100)] []),
      Touchstart (TouchEvent [(50, 100), (400, 300)] []),
      Touchend] noGesture
   = Some ([Logged DEBUG ''Ignoring touch: multiple touchpoints detected.'',
            Logged INFO ''Swipe detected, changing tab to the right.'',
            DispatchClick 2], noGesture)"
    unfolding deliverAll.simps deliver.simps handlePointerEnd_def getNextTabIndex_eq by code_simp
  then show ?thesis by (simp add: navigations_def)
qed

lemma click_unhandled:
  "animate cfg \<notin> set animateVariants \<Longrightarrow> 0 \<le> index \<Longrightarrow> view pg \<Longrightarrow>
   snd (click cfg pg index d) = Inl UnhandledCase"
  by (simp add: click_def animateVariants_def Let_def)

lemma click_handled:
  "animate cfg \<in> set animateVariants \<Longrightarrow> snd (click cfg pg index d) \<noteq> Inl UnhandledCase"
  by (auto simp: click_def clickTab_def animateVariants_def Let_def)

text \<open>
  Claim C9. The switch over \<open>logger_level\<close> in \<open>parseConfig\<close> throws on every string that
  is not one of the five levels, and the dispatch over the animation mode in \<open>click\<close>
  throws, once an index and a view are there, on every mode that is not one of the four
  variants. A raw value that passed the schema never reaches the throwing branch of the
  switch (so \<open>parseConfig\<close> throws on no value), and it parses to settings whose animation
  mode is one of the four variants; with such a mode \<open>click\<close> does not reach its throwing
  branch.
\<close>

theorem unhandled_variants_throw:
  "(\<forall>s cur. s \<notin> set loggerLevelVariants \<longrightarrow> loggerLevelSwitch (Some (JStr s)) cur = Inl UnhandledCase)
   \<and> (\<forall>raw cur. instanceOfSwipeNavigationConfig raw \<longrightarrow>
         (\<exists>level. loggerLevelSwitch (getProp raw (lit ''logger_level'')) cur = Inr level)
         \<and> (\<exists>c. parseConfig numberToString raw = Inr (Some c, []) \<and> animate c \<in> set animateVariants))
   \<and> (\<forall>raw. \<exists>r. parseConfig numberToString raw = Inr r)
   \<and> (\<forall>cfg pg index d. animate cfg \<notin> set animateVariants \<and> 0 \<le> index \<and> view pg \<longrightarrow>
         snd (click cfg pg index d) = Inl UnhandledCase)
   \<and> (\<forall>cfg pg index d. animate cfg \<in> set animateVariants \<longrightarrow>
         snd (click cfg pg index d) \<noteq> Inl UnhandledCase)"
proof -
  have "\<exists>r. parseConfig numberToString raw = Inr r" for raw
    by (cases rule: parseConfig_cases[of raw numberToString]) auto
  then show ?thesis
    using loggerLevelSwitch_unhandled loggerLevelSwitch_valid valid_fields(1) parseConfig_valid
      click_unhandled click_handled
    by (intro conjI allI impI) blast+
qed

text \<open>
  The level \<open>trace\<close> makes the switch throw, but as a raw value it is rejected by the
  schema first; the level \<open>debug\<close> passes. The mode \<open>zoom\<close> makes \<open>click\<close> throw after it
  set the transition; the mode \<open>none\<close> clicks the tab.
\<close>

theorem unhandled_variants_throw_witness:
  "lit ''trace'' \<notin> set loggerLevelVariants
   \<and> loggerLevelSwitch (Some (JStr (lit ''trace''))) WARN = Inl UnhandledCase
   \<and> instanceOfSwipeNavigationConfig (JObj [(lit ''logger_level'', JStr (lit ''debug''))])
   \<and> loggerLevelSwitch (getProp (JObj [(lit ''logger_level'', JStr (lit ''debug''))]) (lit ''logger_level'')) WARN
       = Inr DEBUG
   \<and> parseConfig integerToString (JObj [(lit ''logger_level'', JStr (lit ''trace''))])
       = Inr (None, [Logged ERROR ''Found invalid configuration.''])
   \<and> lit ''zoom'' \<notin> set animateVariants
   \<and> click (newConfig\<lparr>animate := lit ''zoom''\<rparr>) (examplePage (tabStrip 4 1)) 2 False
       = ([SetViewTransition (TransitionTransformOpacity 200 ''ease-in'')], Inl UnhandledCase)
   \<and> lit ''none'' \<in> set animateVariants
   \<and> click newConfig (examplePage (tabStrip 4 1)) 2 False = ([DispatchClick 2], Inr ())"
proof -
  have a: "lit ''trace'' \<notin> set loggerLevelVariants" by (simp add: loggerLevelVariants_def)
  have b: "instanceOfSwipeNavigationConfig (JObj [(lit ''logger_level'', JStr (lit ''debug''))])"
    by (simp add: instanceOfSwipeNavigationConfig_def getProp_def optional_def isLiteralOf_def
          loggerLevelVariants_def)
  have c: "loggerLevelSwitch (getProp (JObj [(lit ''logger_level'', JStr (lit ''debug''))]) (lit ''logger_level'')) WARN
       = Inr DEBUG"
    by (simp add: getProp_def loggerLevelSwitch_def)
  have d: "parseConfig integerToString (JObj [(lit ''logger_level'', JStr (lit ''trace''))])
       = Inr (None, [Logged ERROR ''Found invalid configuration.''])"
    by (simp add: parseConfig_def instanceOfSwipeNavigationConfig_def getProp_def optional_def
          isLiteralOf_def loggerLevelVariants_def)
  have e: "lit ''zoom'' \<notin> set animateVariants" "lit ''none'' \<in> set animateVariants"
    by (simp_all add: animateVariants_def)
  have f: "click (newConfig\<lparr>animate := lit ''zoom''\<rparr>) (examplePage (tabStrip 4 1)) 2 False
       = ([SetViewTransition (TransitionTransformOpacity 200 ''ease-in'')], Inl UnhandledCase)"
    by (simp add: click_def examplePage_def newConfig_def Let_def)
  have g: "click newConfig (examplePage (tabStrip 4 1)) 2 False = ([DispatchClick 2], Inr ())"
    by code_simp
  from unhandled_variants_throw[of integerToString]
  have "loggerLevelSwitch (Some (JStr (lit ''trace''))) WARN = Inl UnhandledCase"
    using a by blast
  then show ?thesis using a b c d e f g by simp
qed

section \<open>The resolver returns, and what it returns\<close>

subsection \<open>Rules for runs that return\<close>

lemma andThen_Some:
  "m = Some (h1, e1, a) \<Longrightarrow> f h1 a = Some (h2, e2, b) \<Longrightarrow> andThen m f = Some (h2, e1 @ e2, b)"
  by (simp add: andThen_def)

lemma keepsResolved_refl: "keepsResolved d h h"
  by (simp add: keepsResolved_def)

lemma keepsResolved_trans:
  "keepsResolved d h h1 \<Longrightarrow> keepsResolved d h1 h2 \<Longrightarrow> keepsResolved d h h2"
  by (simp add: keepsResolved_def)

lemma returnsOk_Some:
  "storeOk N d h' \<Longrightarrow> keepsResolved d h h' \<Longrightarrow> Q h' r \<Longrightarrow> returnsOk N d h (Some (h', e, r)) Q"
  by (auto simp: returnsOk_def)

lemma returnsOk_rebase:
  "returnsOk N d h1 m Q \<Longrightarrow> keepsResolved d h h1 \<Longrightarrow> returnsOk N d h m Q"
  by (auto simp: returnsOk_def intro: keepsResolved_trans)

lemma returnsOk_andThen:
  assumes "returnsOk N d h m Q"
    and "\<And>h1 a. storeOk N d h1 \<Longrightarrow> keepsResolved d h h1 \<Longrightarrow> Q h1 a \<Longrightarrow> returnsOk N d h (f h1 a) Q'"
  shows "returnsOk N d h (andThen m f) Q'"
proof -
  from assms(1) obtain h1 e1 a where m: "m = Some (h1, e1, a)"
    and ok: "storeOk N d h1" "keepsResolved d h h1" "Q h1 a"
    by (auto simp: returnsOk_def)
  from assms(2)[OF ok] obtain h2 e2 b where f: "f h1 a = Some (h2, e2, b)"
    and ok2: "storeOk N d h2" "keepsResolved d h h2" "Q' h2 b"
    by (auto simp: returnsOk_def)
  from m f ok2 show ?thesis by (auto simp: returnsOk_def andThen_def)
qed

lemma returnsOk_weaken:
  assumes "returnsOk N d h m Q"
    and "\<And>h' r. storeOk N d h' \<Longrightarrow> keepsResolved d h h' \<Longrightarrow> Q h' r \<Longrightarrow> Q' h' r"
  shows "returnsOk N d h m Q'"
  using assms by (auto simp: returnsOk_def)

lemma returnsOk_foldl:
  assumes "returnsOk N d h m (\<lambda>h' u. True)"
    and "\<And>h1 c. c \<in> set cs \<Longrightarrow> storeOk N d h1 \<Longrightarrow> keepsResolved d h h1
           \<Longrightarrow> returnsOk N d h (g h1 c) (\<lambda>h' u. True)"
  shows "returnsOk N d h (foldl (\<lambda>m c. andThen m (\<lambda>h1 u. g h1 c)) m cs) (\<lambda>h' u. True)"
  using assms
proof (induction cs arbitrary: m)
  case Nil
  then show ?case by simp
next
  case (Cons c cs)
  have "returnsOk N d h (andThen m (\<lambda>h1 u. g h1 c)) (\<lambda>h' u. True)"
    by (rule returnsOk_andThen[OF Cons.prems(1)]) (simp add: Cons.prems(2))
  from Cons.IH[OF this] Cons.prems(2) show ?case by simp
qed

lemma firstMatch_connected:
  "domOk d \<Longrightarrow> connectedNode d r \<Longrightarrow> firstMatch d r sels = Some n \<Longrightarrow> isConnected d n"
  by (induction sels) (auto simp: domOk_def split: option.splits if_splits)

lemma finite_unresolved: "finite {p. p < N \<and> \<not> resolved d h p}"
  by simp

lemma unresolved_mono:
  "keepsResolved d h h' \<Longrightarrow> unresolved N d h' \<le> unresolved N d h"
  unfolding unresolved_def keepsResolved_def
  by (rule card_mono) auto

lemma unresolved_less:
  assumes "keepsResolved d h h'" "p < N" "\<not> resolved d h p" "resolved d h' p"
  shows "unresolved N d h' < unresolved N d h"
  unfolding unresolved_def
proof (rule psubset_card_mono)
  show "finite {p. p < N \<and> \<not> resolved d h p}" by simp
  show "{p. p < N \<and> \<not> resolved d h' p} \<subset> {p. p < N \<and> \<not> resolved d h p}"
    using assms by (auto simp: keepsResolved_def)
qed

lemma callDepth_linear:
  "(a'::nat) \<le> a \<Longrightarrow> (i' < i \<and> j' < 10) \<or> (i' = i \<and> j' < j) \<Longrightarrow> 10 * (a' + i') + j' < 10 * (a + i) + (j::nat)"
  by arith

lemma callDepth_less:
  assumes "u' \<le> u" "(i' < i \<and> j' < 10) \<or> (i' = i \<and> j' < j)"
  shows "callDepth N u' i' j' < callDepth N u i j"
  unfolding callDepth_def
  by (rule callDepth_linear[OF mult_le_mono1[OF assms(1)] assms(2)])

lemma callDepth_linear_unresolved:
  "(a'::nat) + Suc N \<le> a \<Longrightarrow> i' \<le> N \<Longrightarrow> j' < 10 \<Longrightarrow> 10 * (a' + i') + j' < 10 * (a + i) + (j::nat)"
  by arith

lemma callDepth_less_unresolved:
  assumes "u' < u" "i' \<le> N" "j' < 10"
  shows "callDepth N u' i' j' < callDepth N u i j"
proof -
  from assms(1) have "Suc u' * Suc N \<le> u * Suc N" by (intro mult_le_mono1) simp
  then have "u' * Suc N + Suc N \<le> u * Suc N" by simp
  from callDepth_linear_unresolved[OF this assms(2,3)] show ?thesis
    unfolding callDepth_def .
qed

subsection \<open>Updates of the store\<close>

lemma storeOk_same_shape:
  assumes "storeOk N d h"
    and "\<And>x. parent (h' x) = parent (h x)"
    and "\<And>x. fst ` set (keepAliveChildren (h' x)) = fst ` set (keepAliveChildren (h x))"
  shows "storeOk N d h'"
  using assms unfolding storeOk_def by simp

lemma storeOk_add_child:
  assumes "storeOk N d h" "c < N" "parent (h c) = PageObjectRef p"
  shows "storeOk N d (h(p := (h p)\<lparr>keepAliveChildren := keepAliveChildren (h p) @ [(c, [])]\<rparr>))"
  using assms unfolding storeOk_def by auto

lemma resolved_same_nodes:
  assumes "\<And>x. domNode (h' x) = domNode (h x)"
  shows "resolved d h' p = resolved d h p"
  using assms by (simp add: resolved_def)

lemma keepsResolved_same_nodes:
  assumes "\<And>x. domNode (h' x) = domNode (h x)"
  shows "keepsResolved d h h'" "keepsResolved d h' h"
  using resolved_same_nodes[OF assms] by (simp_all add: keepsResolved_def)

lemma keys_map:
  assumes "\<And>entry. fst (g entry) = fst entry"
  shows "fst ` set (map g xs) = fst ` set xs"
  using assms by (induction xs) auto

lemma fst_disconnect:
  "domNode (fst (disconnectAllChildrenObservers h p) x) = domNode (h x)"
  "parent (fst (disconnectAllChildrenObservers h p) x) = parent (h x)"
  "fst ` set (keepAliveChildren (fst (disconnectAllChildrenObservers h p) x))
     = fst ` set (keepAliveChildren (h x))"
  by (simp_all add: disconnectAllChildrenObservers_def keys_map del: set_map)

lemma fst_invalidate:
  "domNode (fst (invalidateDomNode h p) x) = (if x = p then None else domNode (h x))"
  "parent (fst (invalidateDomNode h p) x) = parent (h x)"
  "fst ` set (keepAliveChildren (fst (invalidateDomNode h p) x))
     = fst ` set (keepAliveChildren (h x))"
  by (simp_all add: invalidateDomNode_def Let_def fst_disconnect)

lemma invalidate_ok:
  assumes "storeOk N d h" "\<not> resolved d h p"
  shows "storeOk N d (fst (invalidateDomNode h p))"
    and "keepsResolved d h (fst (invalidateDomNode h p))"
    and "domNode (fst (invalidateDomNode h p) p) = None"
proof -
  show "storeOk N d (fst (invalidateDomNode h p))"
    by (rule storeOk_same_shape[OF assms(1)]) (simp_all add: fst_invalidate)
  show "keepsResolved d h (fst (invalidateDomNode h p))"
    using assms(2) by (auto simp: keepsResolved_def resolved_def fst_invalidate)
  show "domNode (fst (invalidateDomNode h p) p) = None"
    by (simp add: fst_invalidate)
qed

lemma observe_ok:
  assumes "storeOk N d h"
  shows "returnsOk N d h (observe h p c parentNode) (\<lambda>h' u. True)"
proof (cases "c \<in> fst ` set (keepAliveChildren (h p)) \<and> parentNode \<noteq> None")
  case False
  then show ?thesis
    using assms by (auto simp: observe_def intro!: returnsOk_Some keepsResolved_refl split: option.splits)
next
  case True
  then obtain target where t: "parentNode = Some target" by auto
  let ?h = "h(p := (h p)\<lparr>keepAliveChildren :=
                      map (\<lambda>entry. if fst entry = c
                                    then (fst entry, List.insert target (snd entry)) else entry)
                          (keepAliveChildren (h p))\<rparr>)"
  have keys: "fst ` set (keepAliveChildren (?h x)) = fst ` set (keepAliveChildren (h x))" for x
    by (simp add: keys_map del: set_map)
  have "storeOk N d ?h"
    by (rule storeOk_same_shape[OF assms]) (simp_all add: keys del: fun_upd_apply, simp)
  moreover have "keepsResolved d h ?h"
    by (rule keepsResolved_same_nodes) simp
  ultimately show ?thesis
    using True t by (auto simp: observe_def intro!: returnsOk_Some)
qed


subsection \<open>Using what a depth of calls gives\<close>

lemma getDomNodeReturnsD:
  "getDomNodeReturns N d k \<Longrightarrow> storeOk N d h \<Longrightarrow> p < N \<Longrightarrow>
   callDepth N (unresolved N d h) p (if domNode (h p) \<noteq> None \<and> isStale d (h p) then 3 else 2) < k \<Longrightarrow>
   returnsOk N d h (getDomNode k d h p) (\<lambda>h' r. r = domNode (h' p) \<and> (r = None \<or> resolved d h' p))"
  unfolding getDomNodeReturns_def by blast

lemma refreshDomNodeReturnsD:
  "refreshDomNodeReturns N d k \<Longrightarrow> storeOk N d h \<Longrightarrow> p < N \<Longrightarrow> \<not> resolved d h p \<Longrightarrow>
   callDepth N (unresolved N d h) p 1 < k \<Longrightarrow>
   returnsOk N d h (refreshDomNode k d h p) (\<lambda>h' u. domNode (h' p) = None \<or> resolved d h' p)"
  unfolding refreshDomNodeReturns_def by blast

lemma getParentNodeReturnsD:
  "getParentNodeReturns N d k \<Longrightarrow> storeOk N d h \<Longrightarrow> p < N \<Longrightarrow>
   callDepth N (unresolved N d h) p 0 < k \<Longrightarrow>
   returnsOk N d h (getParentNode k d h p) (\<lambda>h' r. \<forall>x. r = Some x \<longrightarrow> connectedNode d x)"
  unfolding getParentNodeReturns_def by blast

lemma ensureKeepAliveWhenNeededReturnsD:
  "ensureKeepAliveWhenNeededReturns N d k \<Longrightarrow> storeOk N d h \<Longrightarrow> p < N \<Longrightarrow>
   callDepth N (unresolved N d h) p 7 < k \<Longrightarrow>
   returnsOk N d h (ensureKeepAliveWhenNeeded k d h p) (\<lambda>h' u. True)"
  unfolding ensureKeepAliveWhenNeededReturns_def by blast

lemma addPageObjectToKeepAliveReturnsD:
  "addPageObjectToKeepAliveReturns N d k \<Longrightarrow> storeOk N d h \<Longrightarrow> c < N \<Longrightarrow>
   parent (h c) = PageObjectRef p \<Longrightarrow> callDepth N (unresolved N d h) c 6 < k \<Longrightarrow>
   returnsOk N d h (addPageObjectToKeepAlive k d h p c) (\<lambda>h' u. True)"
  unfolding addPageObjectToKeepAliveReturns_def by blast

lemma setKeepAliveReturnsD:
  "setKeepAliveReturns N d k \<Longrightarrow> storeOk N d h \<Longrightarrow> p < N \<Longrightarrow>
   callDepth N (unresolved N d h) p 8 < k \<Longrightarrow>
   returnsOk N d h (setKeepAlive k d h p) (\<lambda>h' u. True)"
  unfolding setKeepAliveReturns_def by blast

lemma connectAllChildrenObserversReturnsD:
  "connectAllChildrenObserversReturns N d k \<Longrightarrow> storeOk N d h \<Longrightarrow> p < N \<Longrightarrow>
   callDepth N (unresolved N d h) N 0 < k \<Longrightarrow>
   returnsOk N d h (connectAllChildrenObservers k d h p) (\<lambda>h' u. True)"
  unfolding connectAllChildrenObserversReturns_def by blast

lemma connectChildObserverReturnsD:
  "connectChildObserverReturns N d k \<Longrightarrow> storeOk N d h \<Longrightarrow> p < N \<Longrightarrow> c < N \<Longrightarrow>
   callDepth N (unresolved N d h) c 4 < k \<Longrightarrow>
   returnsOk N d h (connectChildObserver k d h p c) (\<lambda>h' u. True)"
  unfolding connectChildObserverReturns_def by blast

subsection \<open>One more level of calls\<close>

subsection \<open>One more level of calls\<close>

lemma getParentNode_step:
  assumes G: "getDomNodeReturns N d k"
  shows "getParentNodeReturns N d (Suc k)"
  unfolding getParentNodeReturns_def
proof (intro allI impI, elim conjE)
  fix h p
  assume ok: "storeOk N d h" and p: "p < N"
    and depth: "callDepth N (unresolved N d h) p 0 < Suc k"
  let ?Q = "\<lambda>(h'::store) r. \<forall>x. r = Some x \<longrightarrow> connectedNode d x"
  have first: "returnsOk N d h
      (case parent (h p) of
          PageObjectRef q \<Rightarrow> andThen (getDomNode k d h q) (\<lambda>h1 n. Some (h1, [], map_option ElementNode n))
        | DocumentRef \<Rightarrow> Some (h, [], Some DocumentNode)
        | ElementRef n \<Rightarrow> Some (h, [], Some (ElementNode n))) ?Q"
  proof (cases "parent (h p)")
    case (PageObjectRef q)
    with ok p have q: "q < p" by (auto simp: storeOk_def)
    have "callDepth N (unresolved N d h) q (if domNode (h q) \<noteq> None \<and> isStale d (h q) then 3 else 2)
            < callDepth N (unresolved N d h) p 0"
      using q by (intro callDepth_less) auto
    with depth have "callDepth N (unresolved N d h) q (if domNode (h q) \<noteq> None \<and> isStale d (h q) then 3 else 2) < k"
      by linarith
    with q p have "returnsOk N d h (getDomNode k d h q) (\<lambda>h' r. r = domNode (h' q) \<and> (r = None \<or> resolved d h' q))"
      by (intro getDomNodeReturnsD[OF G ok]) auto
    then have "returnsOk N d h
                 (andThen (getDomNode k d h q) (\<lambda>h1 n. Some (h1, [], map_option ElementNode n))) ?Q"
      by (rule returnsOk_andThen) (auto intro!: returnsOk_Some simp: resolved_def)
    with PageObjectRef show ?thesis by simp
  next
    case DocumentRef
    then show ?thesis using ok by (auto intro!: returnsOk_Some keepsResolved_refl)
  next
    case (ElementRef n)
    with ok p have "isConnected d n" by (auto simp: storeOk_def)
    with ElementRef show ?thesis using ok by (auto intro!: returnsOk_Some keepsResolved_refl)
  qed
  show "returnsOk N d h (getParentNode (Suc k) d h p) ?Q"
    unfolding getParentNode.simps
    by (rule returnsOk_andThen[OF first])
       (auto intro!: returnsOk_Some split: option.splits parentNode.splits)
qed

lemma getDomNode_step:
  assumes R: "refreshDomNodeReturns N d k" and G: "getDomNodeReturns N d k"
  shows "getDomNodeReturns N d (Suc k)"
  unfolding getDomNodeReturns_def
proof (intro allI impI, elim conjE)
  fix h p
  assume ok: "storeOk N d h" and p: "p < N"
    and depth: "callDepth N (unresolved N d h) p (if domNode (h p) \<noteq> None \<and> isStale d (h p) then 3 else 2) < Suc k"
  let ?Q = "\<lambda>(h'::store) r. r = domNode (h' p) \<and> (r = None \<or> resolved d h' p)"
  show "returnsOk N d h (getDomNode (Suc k) d h p) ?Q"
  proof (cases "domNode (h p)")
    case None
    then have un: "\<not> resolved d h p" by (simp add: resolved_def)
    have "callDepth N (unresolved N d h) p 1 < callDepth N (unresolved N d h) p 2"
      by (intro callDepth_less) auto
    with depth None have "callDepth N (unresolved N d h) p 1 < k" by simp
    then have "returnsOk N d h (refreshDomNode k d h p) (\<lambda>h' u. domNode (h' p) = None \<or> resolved d h' p)"
      by (rule refreshDomNodeReturnsD[OF R ok p un])
    then have "returnsOk N d h
                 (andThen (refreshDomNode k d h p) (\<lambda>h1 u. Some (h1, [], domNode (h1 p)))) ?Q"
      by (rule returnsOk_andThen) (auto intro!: returnsOk_Some)
    with None show ?thesis by simp
  next
    case (Some n)
    show ?thesis
    proof (cases "isStale d (h p)")
      case False
      with Some have "resolved d h p" by (simp add: resolved_def isStale_def)
      with Some False ok show ?thesis by (auto intro!: returnsOk_Some keepsResolved_refl)
    next
      case True
      with Some have un: "\<not> resolved d h p" by (simp add: resolved_def isStale_def)
      let ?h1 = "fst (invalidateDomNode h p)"
      note inv = invalidate_ok[OF ok un]
      have "unresolved N d ?h1 \<le> unresolved N d h"
        by (rule unresolved_mono[OF inv(2)])
      then have "callDepth N (unresolved N d ?h1) p 2 < callDepth N (unresolved N d h) p 3"
        by (intro callDepth_less) auto
      with depth Some True have "callDepth N (unresolved N d ?h1) p 2 < k" by simp
      with inv(3) have "returnsOk N d ?h1 (getDomNode k d ?h1 p) ?Q"
        by (intro getDomNodeReturnsD[OF G inv(1) p]) simp
      then have "returnsOk N d h (getDomNode k d ?h1 p) ?Q"
        by (rule returnsOk_rebase[OF _ inv(2)])
      then have inner: "returnsOk N d h
          (andThen (getDomNode k d ?h1 p) (\<lambda>h2 r. Some (h2, [], domNode (h2 p)))) ?Q"
        by (rule returnsOk_andThen) (auto intro!: returnsOk_Some)
      have "returnsOk N d h
          (andThen (Some (?h1, Logged DEBUG ''Stale object in cache. Invalidating...'' # snd (invalidateDomNode h p), ()))
             (\<lambda>h1 u. andThen (getDomNode k d h1 p) (\<lambda>h2 r. Some (h2, [], domNode (h2 p))))) ?Q"
        using inner by (auto simp: returnsOk_def andThen_def split: option.splits)
      with Some True show ?thesis by simp
    qed
  qed
qed


lemma connectChildObserver_step:
  assumes P: "getParentNodeReturns N d k" and G: "getDomNodeReturns N d k"
  shows "connectChildObserverReturns N d (Suc k)"
  unfolding connectChildObserverReturns_def
proof (intro allI impI, elim conjE)
  fix h p c
  assume ok: "storeOk N d h" and p: "p < N" and c: "c < N"
    and depth: "callDepth N (unresolved N d h) c 4 < Suc k"
  let ?T = "\<lambda>(h'::store) (u::unit). True"
  show "returnsOk N d h (connectChildObserver (Suc k) d h p c) ?T"
  proof (cases "domNode (h p) = None")
    case True
    then show ?thesis using ok by (auto intro!: returnsOk_Some keepsResolved_refl)
  next
    case False
    have "callDepth N (unresolved N d h) c 0 < callDepth N (unresolved N d h) c 4"
      by (intro callDepth_less) auto
    with depth have "callDepth N (unresolved N d h) c 0 < k" by linarith
    then have parentNode: "returnsOk N d h (getParentNode k d h c)
                             (\<lambda>h' r. \<forall>x. r = Some x \<longrightarrow> connectedNode d x)"
      by (rule getParentNodeReturnsD[OF P ok c])
    have rest: "returnsOk N d h
                  (andThen (observe h1 p c parentNode)
                     (\<lambda>h2 u. andThen (getDomNode k d h2 c) (\<lambda>h3 n. Some (h3, [], ())))) ?T"
      if ok1: "storeOk N d h1" and keep1: "keepsResolved d h h1" for h1 parentNode
    proof (rule returnsOk_andThen[OF returnsOk_rebase[OF observe_ok[OF ok1] keep1]])
      fix h2 and a :: unit
      assume ok2: "storeOk N d h2" and keep2: "keepsResolved d h h2"
      have "unresolved N d h2 \<le> unresolved N d h"
        by (rule unresolved_mono[OF keep2])
      then have "callDepth N (unresolved N d h2) c (if domNode (h2 c) \<noteq> None \<and> isStale d (h2 c) then 3 else 2)
                   < callDepth N (unresolved N d h) c 4"
        by (intro callDepth_less) auto
      with depth
      have "callDepth N (unresolved N d h2) c (if domNode (h2 c) \<noteq> None \<and> isStale d (h2 c) then 3 else 2) < k"
        by linarith
      then have "returnsOk N d h2 (getDomNode k d h2 c)
                   (\<lambda>h' r. r = domNode (h' c) \<and> (r = None \<or> resolved d h' c))"
        by (rule getDomNodeReturnsD[OF G ok2 c])
      then have "returnsOk N d h (getDomNode k d h2 c)
                   (\<lambda>h' r. r = domNode (h' c) \<and> (r = None \<or> resolved d h' c))"
        by (rule returnsOk_rebase[OF _ keep2])
      then show "returnsOk N d h (andThen (getDomNode k d h2 c) (\<lambda>h3 n. Some (h3, [], ()))) ?T"
        by (rule returnsOk_andThen) (auto intro!: returnsOk_Some)
    qed
    have "returnsOk N d h
            (andThen (getParentNode k d h c)
               (\<lambda>h1 parentNode. andThen (observe h1 p c parentNode)
                  (\<lambda>h2 u. andThen (getDomNode k d h2 c) (\<lambda>h3 n. Some (h3, [], ()))))) ?T"
      by (rule returnsOk_andThen[OF parentNode]) (rule rest)
    with False show ?thesis by simp
  qed
qed

lemma ensureKeepAliveWhenNeeded_step:
  assumes A: "addPageObjectToKeepAliveReturns N d k"
  shows "ensureKeepAliveWhenNeededReturns N d (Suc k)"
  unfolding ensureKeepAliveWhenNeededReturns_def
proof (intro allI impI, elim conjE)
  fix h p
  assume ok: "storeOk N d h" and p: "p < N"
    and depth: "callDepth N (unresolved N d h) p 7 < Suc k"
  let ?T = "\<lambda>(h'::store) (u::unit). True"
  have "callDepth N (unresolved N d h) p 6 < callDepth N (unresolved N d h) p 7"
    by (intro callDepth_less) auto
  with depth have less: "callDepth N (unresolved N d h) p 6 < k" by linarith
  show "returnsOk N d h (ensureKeepAliveWhenNeeded (Suc k) d h p) ?T"
  proof (cases "parent (h p)")
    case (PageObjectRef q)
    show ?thesis
    proof (cases "keepAlive (h p)")
      case True
      from addPageObjectToKeepAliveReturnsD[OF A ok p PageObjectRef less] PageObjectRef True
      show ?thesis by simp
    next
      case False
      with PageObjectRef ok show ?thesis by (auto intro!: returnsOk_Some keepsResolved_refl)
    qed
  next
    case DocumentRef
    with ok show ?thesis by (auto intro!: returnsOk_Some keepsResolved_refl)
  next
    case (ElementRef n)
    with ok show ?thesis by (auto intro!: returnsOk_Some keepsResolved_refl)
  qed
qed

lemma setKeepAlive_step:
  assumes E: "ensureKeepAliveWhenNeededReturns N d k"
  shows "setKeepAliveReturns N d (Suc k)"
  unfolding setKeepAliveReturns_def
proof (intro allI impI, elim conjE)
  fix h p
  assume ok: "storeOk N d h" and p: "p < N"
    and depth: "callDepth N (unresolved N d h) p 8 < Suc k"
  let ?T = "\<lambda>(h'::store) (u::unit). True"
  let ?h = "h(p := (h p)\<lparr>keepAlive := True\<rparr>)"
  show "returnsOk N d h (setKeepAlive (Suc k) d h p) ?T"
  proof (cases "keepAlive (h p)")
    case True
    with ok show ?thesis by (auto intro!: returnsOk_Some keepsResolved_refl)
  next
    case False
    have ok': "storeOk N d ?h"
      by (rule storeOk_same_shape[OF ok]) simp_all
    have keep: "keepsResolved d h ?h"
      by (rule keepsResolved_same_nodes) simp
    have "callDepth N (unresolved N d ?h) p 7 < callDepth N (unresolved N d h) p 8"
      by (intro callDepth_less unresolved_mono[OF keep]) auto
    with depth have "callDepth N (unresolved N d ?h) p 7 < k" by linarith
    from returnsOk_rebase[OF ensureKeepAliveWhenNeededReturnsD[OF E ok' p this] keep] False
    show ?thesis by simp
  qed
qed

lemma addPageObjectToKeepAlive_step:
  assumes S: "setKeepAliveReturns N d k" and C: "connectChildObserverReturns N d k"
  shows "addPageObjectToKeepAliveReturns N d (Suc k)"
  unfolding addPageObjectToKeepAliveReturns_def
proof (intro allI impI, elim conjE)
  fix h p c
  assume ok: "storeOk N d h" and c: "c < N" and par: "parent (h c) = PageObjectRef p"
    and depth: "callDepth N (unresolved N d h) c 6 < Suc k"
  let ?T = "\<lambda>(h'::store) (u::unit). True"
  let ?h = "h(p := (h p)\<lparr>keepAliveChildren := keepAliveChildren (h p) @ [(c, [])]\<rparr>)"
  from ok c par have pc: "p < c" by (auto simp: storeOk_def)
  with c have p: "p < N" by simp
  show "returnsOk N d h (addPageObjectToKeepAlive (Suc k) d h p c) ?T"
  proof (cases "c \<in> fst ` set (keepAliveChildren (h p))")
    case True
    with ok show ?thesis by (auto intro!: returnsOk_Some keepsResolved_refl)
  next
    case False
    have ok': "storeOk N d ?h"
      by (rule storeOk_add_child[OF ok c par])
    have keep: "keepsResolved d h ?h"
      by (rule keepsResolved_same_nodes) simp
    have "callDepth N (unresolved N d ?h) p 8 < callDepth N (unresolved N d h) c 6"
      using pc by (intro callDepth_less unresolved_mono[OF keep]) auto
    with depth have "callDepth N (unresolved N d ?h) p 8 < k" by linarith
    from returnsOk_rebase[OF setKeepAliveReturnsD[OF S ok' p this] keep]
    have first: "returnsOk N d h (setKeepAlive k d ?h p) ?T" .
    have "returnsOk N d h
            (andThen (setKeepAlive k d ?h p) (\<lambda>h1 u. connectChildObserver k d h1 p c)) ?T"
    proof (rule returnsOk_andThen[OF first])
      fix h1 and a :: unit
      assume ok1: "storeOk N d h1" and keep1: "keepsResolved d h h1"
      have "callDepth N (unresolved N d h1) c 4 < callDepth N (unresolved N d h) c 6"
        by (intro callDepth_less unresolved_mono[OF keep1]) auto
      with depth have "callDepth N (unresolved N d h1) c 4 < k" by linarith
      from returnsOk_rebase[OF connectChildObserverReturnsD[OF C ok1 p c this] keep1]
      show "returnsOk N d h (connectChildObserver k d h1 p c) ?T" .
    qed
    with False show ?thesis by simp
  qed
qed

lemma connectAllChildrenObservers_step:
  assumes C: "connectChildObserverReturns N d k"
  shows "connectAllChildrenObserversReturns N d (Suc k)"
  unfolding connectAllChildrenObserversReturns_def
proof (intro allI impI, elim conjE)
  fix h p
  assume ok: "storeOk N d h" and p: "p < N"
    and depth: "callDepth N (unresolved N d h) N 0 < Suc k"
  let ?T = "\<lambda>(h'::store) (u::unit). True"
  show "returnsOk N d h (connectAllChildrenObservers (Suc k) d h p) ?T"
  proof (cases "domNode (h p) \<noteq> None \<and> keepAliveChildren (h p) \<noteq> []")
    case False
    with ok show ?thesis by (auto intro!: returnsOk_Some keepsResolved_refl)
  next
    case True
    have start: "returnsOk N d h (Some (h, [Logged VERBOSE ''Reconnecting observers''], ())) ?T"
      using ok by (auto intro!: returnsOk_Some keepsResolved_refl)
    have "returnsOk N d h
            (foldl (\<lambda>m pageObject. andThen m (\<lambda>h1 u. connectChildObserver k d h1 p pageObject))
               (Some (h, [Logged VERBOSE ''Reconnecting observers''], ()))
               (map fst (keepAliveChildren (h p)))) ?T"
    proof (rule returnsOk_foldl[OF start])
      fix h1 c
      assume cin: "c \<in> set (map fst (keepAliveChildren (h p)))"
        and ok1: "storeOk N d h1" and keep1: "keepsResolved d h h1"
      from cin ok p have c: "c < N" by (auto simp: storeOk_def)
      have "callDepth N (unresolved N d h1) c 4 < callDepth N (unresolved N d h) N 0"
        using c by (intro callDepth_less unresolved_mono[OF keep1]) auto
      with depth have "callDepth N (unresolved N d h1) c 4 < k" by linarith
      from returnsOk_rebase[OF connectChildObserverReturnsD[OF C ok1 p c this] keep1]
      show "returnsOk N d h (connectChildObserver k d h1 p c) ?T" .
    qed
    with True show ?thesis by simp
  qed
qed

subsection \<open>Every method returns\<close>

lemma refreshDomNode_step:
  assumes dom: "domOk d"
    and P: "getParentNodeReturns N d k"
    and E: "ensureKeepAliveWhenNeededReturns N d k"
    and A: "connectAllChildrenObserversReturns N d k"
  shows "refreshDomNodeReturns N d (Suc k)"
  unfolding refreshDomNodeReturns_def
proof (intro allI impI, elim conjE)
  fix h p
  assume ok: "storeOk N d h" and p: "p < N" and un: "\<not> resolved d h p"
    and depth: "callDepth N (unresolved N d h) p 1 < Suc k"
  let ?Q = "\<lambda>(h'::store) (u::unit). domNode (h' p) = None \<or> resolved d h' p"
  let ?R = "\<lambda>(h'::store) (u::unit). resolved d h' p \<and> unresolved N d h' < unresolved N d h"
  have "callDepth N (unresolved N d h) p 0 < callDepth N (unresolved N d h) p 1"
    by (intro callDepth_less) auto
  with depth have "callDepth N (unresolved N d h) p 0 < k" by linarith
  then have parentNode: "returnsOk N d h (getParentNode k d h p)
                           (\<lambda>h' r. \<forall>x. r = Some x \<longrightarrow> connectedNode d x)"
    by (rule getParentNodeReturnsD[OF P ok p])
  have after: "returnsOk N d h
                 (andThen (Some (h2, [Logged DEBUG ''Object refreshed''], ()))
                    (\<lambda>h3 u. andThen (ensureKeepAliveWhenNeeded k d h3 p)
                      (\<lambda>h4 u. andThen (connectAllChildrenObservers k d h4 p)
                        (\<lambda>h5 u. Some (h5,
                           (case onDomNodeRefreshedCallback (h5 p) of
                              None \<Rightarrow> []
                            | Some callback \<Rightarrow> [Called callback]),
                           ()))))) ?Q"
    if ok2: "storeOk N d h2" and keep2: "keepsResolved d h h2" and res2: "resolved d h2 p" for h2
  proof -
    have less2: "unresolved N d h2 < unresolved N d h"
      by (rule unresolved_less[OF keep2 p un res2])
    have start: "returnsOk N d h (Some (h2, [Logged DEBUG ''Object refreshed''], ())) ?R"
      using ok2 keep2 res2 less2 by (auto intro!: returnsOk_Some)
    show ?thesis
    proof (rule returnsOk_andThen[OF start])
      fix h3 and a :: unit
      assume ok3: "storeOk N d h3" and keep3: "keepsResolved d h h3"
        and r3: "resolved d h3 p \<and> unresolved N d h3 < unresolved N d h"
      have "callDepth N (unresolved N d h3) p 7 < callDepth N (unresolved N d h) p 1"
        using r3 p by (intro callDepth_less_unresolved) auto
      with depth have "callDepth N (unresolved N d h3) p 7 < k" by linarith
      from ensureKeepAliveWhenNeededReturnsD[OF E ok3 p this]
      have "returnsOk N d h3 (ensureKeepAliveWhenNeeded k d h3 p) ?R"
      proof (rule returnsOk_weaken)
        fix h' and r :: unit
        assume "keepsResolved d h3 h'"
        with r3 unresolved_mono[of d h3 h' N] show "resolved d h' p \<and> unresolved N d h' < unresolved N d h"
          by (auto simp: keepsResolved_def)
      qed
      then have ensure: "returnsOk N d h (ensureKeepAliveWhenNeeded k d h3 p) ?R"
        by (rule returnsOk_rebase[OF _ keep3])
      show "returnsOk N d h
              (andThen (ensureKeepAliveWhenNeeded k d h3 p)
                 (\<lambda>h4 u. andThen (connectAllChildrenObservers k d h4 p)
                   (\<lambda>h5 u. Some (h5,
                      (case onDomNodeRefreshedCallback (h5 p) of
                         None \<Rightarrow> []
                       | Some callback \<Rightarrow> [Called callback]),
                      ())))) ?Q"
      proof (rule returnsOk_andThen[OF ensure])
        fix h4 and a :: unit
        assume ok4: "storeOk N d h4" and keep4: "keepsResolved d h h4"
          and r4: "resolved d h4 p \<and> unresolved N d h4 < unresolved N d h"
        have "callDepth N (unresolved N d h4) N 0 < callDepth N (unresolved N d h) p 1"
          using r4 by (intro callDepth_less_unresolved) auto
        with depth have "callDepth N (unresolved N d h4) N 0 < k" by linarith
        from connectAllChildrenObserversReturnsD[OF A ok4 p this]
        have "returnsOk N d h4 (connectAllChildrenObservers k d h4 p) (\<lambda>h' u. resolved d h' p)"
        proof (rule returnsOk_weaken)
          fix h' and r :: unit
          assume "keepsResolved d h4 h'"
          with r4 show "resolved d h' p" by (auto simp: keepsResolved_def)
        qed
        then have "returnsOk N d h (connectAllChildrenObservers k d h4 p) (\<lambda>h' u. resolved d h' p)"
          by (rule returnsOk_rebase[OF _ keep4])
        then show "returnsOk N d h
                (andThen (connectAllChildrenObservers k d h4 p)
                   (\<lambda>h5 u. Some (h5,
                      (case onDomNodeRefreshedCallback (h5 p) of
                         None \<Rightarrow> []
                       | Some callback \<Rightarrow> [Called callback]),
                      ()))) ?Q"
          by (rule returnsOk_andThen) (auto intro!: returnsOk_Some)
      qed
    qed
  qed
  have cont: "returnsOk N d h
                (let node = (case parentNode of None \<Rightarrow> None | Some r \<Rightarrow> firstMatch d r (selectors (h1 p)));
                     h2 = h1(p := (h1 p)\<lparr>domNode := node\<rparr>)
                 in if node \<noteq> None then
                      andThen (Some (h2, [Logged DEBUG ''Object refreshed''], ()))
                        (\<lambda>h3 u. andThen (ensureKeepAliveWhenNeeded k d h3 p)
                          (\<lambda>h4 u. andThen (connectAllChildrenObservers k d h4 p)
                            (\<lambda>h5 u. Some (h5,
                               (case onDomNodeRefreshedCallback (h5 p) of
                                  None \<Rightarrow> []
                                | Some callback \<Rightarrow> [Called callback]),
                               ()))))
                    else Some (h2, [], ())) ?Q"
    if ok1: "storeOk N d h1" and keep1: "keepsResolved d h h1"
      and conn: "\<forall>x. parentNode = Some x \<longrightarrow> connectedNode d x" for h1 parentNode
  proof -
    let ?node = "case parentNode of None \<Rightarrow> None | Some r \<Rightarrow> firstMatch d r (selectors (h1 p))"
    let ?h2 = "h1(p := (h1 p)\<lparr>domNode := ?node\<rparr>)"
    have ok2: "storeOk N d ?h2"
      by (rule storeOk_same_shape[OF ok1]) simp_all
    have keep2: "keepsResolved d h ?h2"
      using keep1 un by (auto simp: keepsResolved_def resolved_def)
    show ?thesis
    proof (cases ?node)
      case None
      then show ?thesis using ok2 keep2 by (auto simp: Let_def intro!: returnsOk_Some)
    next
      case (Some n)
      then obtain r where r: "parentNode = Some r" "firstMatch d r (selectors (h1 p)) = Some n"
        by (auto split: option.splits)
      with conn have "connectedNode d r" by simp
      from firstMatch_connected[OF dom this r(2)] have "isConnected d n" .
      with Some have res2: "resolved d ?h2 p" by (simp add: resolved_def)
      from after[OF ok2 keep2 res2] Some show ?thesis by (simp add: Let_def)
    qed
  qed
  show "returnsOk N d h (refreshDomNode (Suc k) d h p) ?Q"
    unfolding refreshDomNode.simps
    by (rule returnsOk_andThen[OF parentNode]) (rule cont)
qed

lemma methods_return:
  assumes "domOk d"
  shows "getDomNodeReturns N d k \<and> refreshDomNodeReturns N d k \<and> getParentNodeReturns N d k
         \<and> ensureKeepAliveWhenNeededReturns N d k \<and> addPageObjectToKeepAliveReturns N d k
         \<and> setKeepAliveReturns N d k \<and> connectAllChildrenObserversReturns N d k
         \<and> connectChildObserverReturns N d k"
proof (induction k)
  case 0
  show ?case
    by (simp add: getDomNodeReturns_def refreshDomNodeReturns_def getParentNodeReturns_def
          ensureKeepAliveWhenNeededReturns_def addPageObjectToKeepAliveReturns_def
          setKeepAliveReturns_def connectAllChildrenObserversReturns_def
          connectChildObserverReturns_def)
next
  case (Suc k)
  then have G: "getDomNodeReturns N d k" and R: "refreshDomNodeReturns N d k"
    and P: "getParentNodeReturns N d k" and E: "ensureKeepAliveWhenNeededReturns N d k"
    and A: "addPageObjectToKeepAliveReturns N d k" and S: "setKeepAliveReturns N d k"
    and L: "connectAllChildrenObserversReturns N d k" and C: "connectChildObserverReturns N d k"
    by simp_all
  show ?case
    by (intro conjI getDomNode_step[OF R G] refreshDomNode_step[OF assms P E L]
          getParentNode_step[OF G] ensureKeepAliveWhenNeeded_step[OF A]
          addPageObjectToKeepAlive_step[OF S C] setKeepAlive_step[OF E]
          connectAllChildrenObservers_step[OF C] connectChildObserver_step[OF P G])
qed

lemma unresolved_le: "unresolved N d h \<le> N"
proof -
  have "card {p. p < N \<and> \<not> resolved d h p} \<le> card {..<N}"
    by (rule card_mono) auto
  then show ?thesis by (simp add: unresolved_def)
qed

lemma getDomNode_returns:
  assumes "domOk d" "storeOk N d h" "p < N" "callDepth N (Suc N) 0 0 \<le> k"
  shows "returnsOk N d h (getDomNode k d h p)
           (\<lambda>h' r. r = domNode (h' p) \<and> (r = None \<or> resolved d h' p))"
proof -
  have "unresolved N d h < Suc N" using unresolved_le[of N d h] by simp
  then have "callDepth N (unresolved N d h) p (if domNode (h p) \<noteq> None \<and> isStale d (h p) then 3 else 2)
               < callDepth N (Suc N) 0 0"
    using assms(3) by (intro callDepth_less_unresolved) auto
  with assms(4)
  have "callDepth N (unresolved N d h) p (if domNode (h p) \<noteq> None \<and> isStale d (h p) then 3 else 2) < k"
    by linarith
  with methods_return[OF assms(1), of N k] assms(2,3) show ?thesis
    by (intro getDomNodeReturnsD) auto
qed

subsection \<open>A deeper bound gives the same result\<close>

subsection \<open>A deeper bound changes nothing\<close>

lemma returnsAlso_refl: "returnsAlso m m"
  by (simp add: returnsAlso_def)

lemma returnsAlso_None: "returnsAlso None m"
  by (simp add: returnsAlso_def)

lemma returnsAlso_andThen:
  assumes "returnsAlso m m'" "\<And>h a. returnsAlso (f h a) (f' h a)"
  shows "returnsAlso (andThen m f) (andThen m' f')"
  using assms unfolding returnsAlso_def andThen_def
  by (auto split: option.splits)

lemma returnsAlso_foldl:
  assumes "\<And>h c. returnsAlso (g h c) (g' h c)" "returnsAlso m m'"
  shows "returnsAlso (foldl (\<lambda>m c. andThen m (\<lambda>h u. g h c)) m cs)
                     (foldl (\<lambda>m c. andThen m (\<lambda>h u. g' h c)) m' cs)"
  using assms(2)
proof (induction cs arbitrary: m m')
  case Nil
  then show ?case by simp
next
  case (Cons c cs)
  have "returnsAlso (andThen m (\<lambda>h u. g h c)) (andThen m' (\<lambda>h u. g' h c))"
    by (rule returnsAlso_andThen[OF Cons.prems]) (rule assms(1))
  from Cons.IH[OF this] show ?case by simp
qed

lemmas methods_simps =
  getDomNode.simps refreshDomNode.simps getParentNode.simps ensureKeepAliveWhenNeeded.simps
  addPageObjectToKeepAlive.simps setKeepAlive.simps connectAllChildrenObservers.simps
  connectChildObserver.simps

lemma deeper_step:
  "(\<forall>h p. returnsAlso (getDomNode k d h p) (getDomNode (Suc k) d h p))
   \<and> (\<forall>h p. returnsAlso (refreshDomNode k d h p) (refreshDomNode (Suc k) d h p))
   \<and> (\<forall>h p. returnsAlso (getParentNode k d h p) (getParentNode (Suc k) d h p))
   \<and> (\<forall>h p. returnsAlso (ensureKeepAliveWhenNeeded k d h p) (ensureKeepAliveWhenNeeded (Suc k) d h p))
   \<and> (\<forall>h p c. returnsAlso (addPageObjectToKeepAlive k d h p c) (addPageObjectToKeepAlive (Suc k) d h p c))
   \<and> (\<forall>h p. returnsAlso (setKeepAlive k d h p) (setKeepAlive (Suc k) d h p))
   \<and> (\<forall>h p. returnsAlso (connectAllChildrenObservers k d h p) (connectAllChildrenObservers (Suc k) d h p))
   \<and> (\<forall>h p c. returnsAlso (connectChildObserver k d h p c) (connectChildObserver (Suc k) d h p c))"
proof (induction k)
  case 0
  show ?case by (simp add: returnsAlso_None)
next
  case (Suc k)
  then have G: "\<And>h p. returnsAlso (getDomNode k d h p) (getDomNode (Suc k) d h p)"
    and R: "\<And>h p. returnsAlso (refreshDomNode k d h p) (refreshDomNode (Suc k) d h p)"
    and P: "\<And>h p. returnsAlso (getParentNode k d h p) (getParentNode (Suc k) d h p)"
    and E: "\<And>h p. returnsAlso (ensureKeepAliveWhenNeeded k d h p) (ensureKeepAliveWhenNeeded (Suc k) d h p)"
    and A: "\<And>h p c. returnsAlso (addPageObjectToKeepAlive k d h p c) (addPageObjectToKeepAlive (Suc k) d h p c)"
    and S: "\<And>h p. returnsAlso (setKeepAlive k d h p) (setKeepAlive (Suc k) d h p)"
    and L: "\<And>h p. returnsAlso (connectAllChildrenObservers k d h p) (connectAllChildrenObservers (Suc k) d h p)"
    and C: "\<And>h p c. returnsAlso (connectChildObserver k d h p c) (connectChildObserver (Suc k) d h p c)"
    by blast+
  have g: "returnsAlso (getDomNode (Suc k) d h p) (getDomNode (Suc (Suc k)) d h p)" for h p
    by (subst getDomNode.simps(2)[of k], subst getDomNode.simps(2)[of "Suc k"])
       (auto simp del: methods_simps simp: returnsAlso_refl split: option.splits
             intro!: returnsAlso_andThen R G)
  have r: "returnsAlso (refreshDomNode (Suc k) d h p) (refreshDomNode (Suc (Suc k)) d h p)" for h p
    by (subst refreshDomNode.simps(2)[of k], subst refreshDomNode.simps(2)[of "Suc k"])
       (auto simp del: methods_simps simp: returnsAlso_refl Let_def
             intro!: returnsAlso_andThen P E L)
  have p: "returnsAlso (getParentNode (Suc k) d h p) (getParentNode (Suc (Suc k)) d h p)" for h p
    by (subst getParentNode.simps(2)[of k], subst getParentNode.simps(2)[of "Suc k"])
       (auto simp del: methods_simps simp: returnsAlso_refl split: parentRef.splits
             intro!: returnsAlso_andThen G)
  have e: "returnsAlso (ensureKeepAliveWhenNeeded (Suc k) d h p)
             (ensureKeepAliveWhenNeeded (Suc (Suc k)) d h p)" for h p
    by (subst ensureKeepAliveWhenNeeded.simps(2)[of k],
        subst ensureKeepAliveWhenNeeded.simps(2)[of "Suc k"])
       (auto simp del: methods_simps simp: returnsAlso_refl split: parentRef.splits intro!: A)
  have a: "returnsAlso (addPageObjectToKeepAlive (Suc k) d h p c)
             (addPageObjectToKeepAlive (Suc (Suc k)) d h p c)" for h p c
    by (subst addPageObjectToKeepAlive.simps(2)[of k],
        subst addPageObjectToKeepAlive.simps(2)[of "Suc k"])
       (auto simp del: methods_simps simp: returnsAlso_refl intro!: returnsAlso_andThen S C)
  have s: "returnsAlso (setKeepAlive (Suc k) d h p) (setKeepAlive (Suc (Suc k)) d h p)" for h p
    by (subst setKeepAlive.simps(2)[of k], subst setKeepAlive.simps(2)[of "Suc k"])
       (auto simp del: methods_simps simp: returnsAlso_refl intro!: E)
  have l: "returnsAlso (connectAllChildrenObservers (Suc k) d h p)
             (connectAllChildrenObservers (Suc (Suc k)) d h p)" for h p
    by (subst connectAllChildrenObservers.simps(2)[of k],
        subst connectAllChildrenObservers.simps(2)[of "Suc k"])
       (auto simp del: methods_simps simp: returnsAlso_refl intro!: returnsAlso_foldl C)
  have c: "returnsAlso (connectChildObserver (Suc k) d h p c)
             (connectChildObserver (Suc (Suc k)) d h p c)" for h p c
    by (subst connectChildObserver.simps(2)[of k], subst connectChildObserver.simps(2)[of "Suc k"])
       (auto simp del: methods_simps simp: returnsAlso_refl intro!: returnsAlso_andThen P G)
  show ?case using g r p e a s l c by blast
qed

lemma getDomNode_Suc:
  assumes "getDomNode k d h p = Some x"
  shows "getDomNode (Suc k) d h p = Some x"
proof -
  from deeper_step[of k d] have "returnsAlso (getDomNode k d h p) (getDomNode (Suc k) d h p)"
    by blast
  with assms show ?thesis unfolding returnsAlso_def by blast
qed

lemma getDomNode_deeper:
  assumes "getDomNode k d h p = Some x"
  shows "getDomNode (k + j) d h p = Some x"
proof (induction j)
  case 0
  from assms show ?case by simp
next
  case (Suc j)
  from getDomNode_Suc[OF Suc] show ?case by (simp only: add_Suc_right)
qed

subsection \<open>Stores with the same children\<close>

lemma sameEntries_refl: "sameEntries h h"
  by (simp add: sameEntries_def)

lemma sameEntries_trans: "sameEntries h h1 \<Longrightarrow> sameEntries h1 h2 \<Longrightarrow> sameEntries h h2"
  by (simp add: sameEntries_def)

lemma keepAliveClosed_same:
  assumes "keepAliveClosed h" "sameEntries h h'"
  shows "keepAliveClosed h'"
proof -
  have keys: "fst ` set (keepAliveChildren (h' p)) = fst ` set (keepAliveChildren (h p))" for p
  proof -
    have "set (map fst (keepAliveChildren (h' p))) = set (map fst (keepAliveChildren (h p)))"
      using assms(2) by (simp add: sameEntries_def)
    thus ?thesis by (simp only: set_map)
  qed
  show ?thesis
    unfolding keepAliveClosed_def
  proof (intro allI impI)
    fix c p
    assume a: "parent (h' c) = PageObjectRef p \<and> keepAlive (h' c)"
    hence "parent (h c) = PageObjectRef p \<and> keepAlive (h c)"
      using assms(2) by (simp add: sameEntries_def)
    hence "c \<in> fst ` set (keepAliveChildren (h p))"
      using assms(1) unfolding keepAliveClosed_def by blast
    thus "c \<in> fst ` set (keepAliveChildren (h' p))"
      by (simp only: keys)
  qed
qed

lemma entriesFixed_None: "entriesFixed h None"
  by (simp add: entriesFixed_def)

lemma entriesFixed_Some: "sameEntries h h' \<Longrightarrow> entriesFixed h (Some (h', e, r))"
  by (simp add: entriesFixed_def)

lemma entriesFixed_rebase:
  "sameEntries h h1 \<Longrightarrow> entriesFixed h1 m \<Longrightarrow> entriesFixed h m"
  unfolding entriesFixed_def by (blast intro: sameEntries_trans)

lemma entriesFixed_andThen:
  assumes "entriesFixed h m"
    and "\<And>h1 a. sameEntries h h1 \<Longrightarrow> entriesFixed h1 (f h1 a)"
  shows "entriesFixed h (andThen m f)"
  unfolding entriesFixed_def
proof (intro allI impI)
  fix h' e r
  assume run: "andThen m f = Some (h', e, r)"
  then obtain h1 e1 a where m: "m = Some (h1, e1, a)"
    by (cases m) (auto simp: andThen_def)
  then obtain e2 where f: "f h1 a = Some (h', e2, r)"
    using run by (cases "f h1 a") (auto simp: andThen_def)
  have s1: "sameEntries h h1"
    using assms(1) m by (simp add: entriesFixed_def)
  have "sameEntries h1 h'"
    using assms(2)[OF s1, of a] f by (simp add: entriesFixed_def)
  thus "sameEntries h h'"
    using s1 by (rule sameEntries_trans[rotated])
qed

lemma entriesFixed_foldl:
  assumes "entriesFixed h m"
    and "\<And>h1 c. sameEntries h h1 \<Longrightarrow> c \<in> set cs \<Longrightarrow> entriesFixed h1 (f h1 c)"
  shows "entriesFixed h (foldl (\<lambda>m c. andThen m (\<lambda>h1 u. f h1 c)) m cs)"
  using assms
proof (induction cs arbitrary: m)
  case Nil
  thus ?case by simp
next
  case (Cons c cs)
  have "entriesFixed h (andThen m (\<lambda>h1 u. f h1 c))"
    by (rule entriesFixed_andThen[OF Cons.prems(1)]) (simp add: Cons.prems(2))
  thus ?case
    using Cons.IH[of "andThen m (\<lambda>h1 u. f h1 c)"] Cons.prems(2) by simp
qed

lemma sameEntries_domNode: "sameEntries h (h(p := (h p)\<lparr>domNode := n\<rparr>))"
  by (simp add: sameEntries_def)

lemma sameEntries_invalidate: "sameEntries h (fst (invalidateDomNode h p))"
  by (simp add: sameEntries_def invalidateDomNode_def disconnectAllChildrenObservers_def Let_def comp_def)

lemma entriesFixed_observe: "entriesFixed h (observe h p c parentNode)"
  by (auto simp: entriesFixed_def observe_def sameEntries_def comp_def
           split: option.splits if_splits intro!: map_cong)

subsection \<open>No method changes the children of a map\<close>

lemma methodsFixEntriesD:
  assumes "methodsFixEntries k d" "keepAliveClosed h"
  shows "entriesFixed h (getDomNode k d h p)"
    and "entriesFixed h (refreshDomNode k d h p)"
    and "entriesFixed h (getParentNode k d h p)"
    and "entriesFixed h (ensureKeepAliveWhenNeeded k d h p)"
    and "c \<in> fst ` set (keepAliveChildren (h p)) \<Longrightarrow> entriesFixed h (addPageObjectToKeepAlive k d h p c)"
    and "keepAlive (h p) \<Longrightarrow> entriesFixed h (setKeepAlive k d h p)"
    and "entriesFixed h (connectAllChildrenObservers k d h p)"
    and "entriesFixed h (connectChildObserver k d h p c)"
  using assms unfolding methodsFixEntries_def by blast+

lemma getDomNode_fixes:
  assumes ih: "methodsFixEntries k d" and cl: "keepAliveClosed h"
  shows "entriesFixed h (getDomNode (Suc k) d h p)"
proof (cases "domNode (h p)")
  case None
  have "entriesFixed h (andThen (refreshDomNode k d h p) (\<lambda>h1 u. Some (h1, [], domNode (h1 p))))"
    by (rule entriesFixed_andThen[OF methodsFixEntriesD(2)[OF ih cl]])
       (simp add: entriesFixed_Some sameEntries_refl)
  thus ?thesis using None by simp
next
  case (Some n)
  show ?thesis
  proof (cases "isStale d (h p)")
    case False
    thus ?thesis using Some by (simp add: entriesFixed_Some sameEntries_refl)
  next
    case True
    let ?h1 = "fst (invalidateDomNode h p)"
    have s1: "sameEntries h ?h1" by (rule sameEntries_invalidate)
    have "entriesFixed h
            (andThen (Some (?h1, Logged DEBUG ''Stale object in cache. Invalidating...'' # snd (invalidateDomNode h p), ()))
               (\<lambda>h1 u. andThen (getDomNode k d h1 p) (\<lambda>h2 r. Some (h2, [], domNode (h2 p)))))"
    proof (rule entriesFixed_andThen[OF entriesFixed_Some[OF s1]])
      fix h1 :: store and a :: unit
      assume s: "sameEntries h h1"
      have cl1: "keepAliveClosed h1" by (rule keepAliveClosed_same[OF cl s])
      show "entriesFixed h1 (andThen (getDomNode k d h1 p) (\<lambda>h2 r. Some (h2, [], domNode (h2 p))))"
        by (rule entriesFixed_andThen[OF methodsFixEntriesD(1)[OF ih cl1]])
           (simp add: entriesFixed_Some sameEntries_refl)
    qed
    thus ?thesis using Some True by simp
  qed
qed

lemma getParentNode_fixes:
  assumes ih: "methodsFixEntries k d" and cl: "keepAliveClosed h"
  shows "entriesFixed h (getParentNode (Suc k) d h p)"
proof -
  have first: "entriesFixed h
      (case parent (h p) of
          PageObjectRef q \<Rightarrow> andThen (getDomNode k d h q) (\<lambda>h1 n. Some (h1, [], map_option ElementNode n))
        | DocumentRef \<Rightarrow> Some (h, [], Some DocumentNode)
        | ElementRef n \<Rightarrow> Some (h, [], Some (ElementNode n)))"
  proof (cases "parent (h p)")
    case (PageObjectRef q)
    have "entriesFixed h (andThen (getDomNode k d h q) (\<lambda>h1 n. Some (h1, [], map_option ElementNode n)))"
      by (rule entriesFixed_andThen[OF methodsFixEntriesD(1)[OF ih cl]])
         (simp add: entriesFixed_Some sameEntries_refl)
    thus ?thesis using PageObjectRef by simp
  qed (simp_all add: entriesFixed_Some sameEntries_refl)
  show ?thesis
    unfolding getParentNode.simps
    by (rule entriesFixed_andThen[OF first])
       (auto simp: entriesFixed_Some sameEntries_refl split: option.splits parentNode.splits)
qed

lemma ensureKeepAliveWhenNeeded_fixes:
  assumes ih: "methodsFixEntries k d" and cl: "keepAliveClosed h"
  shows "entriesFixed h (ensureKeepAliveWhenNeeded (Suc k) d h p)"
proof (cases "parent (h p)")
  case (PageObjectRef q)
  show ?thesis
  proof (cases "keepAlive (h p)")
    case True
    have "p \<in> fst ` set (keepAliveChildren (h q))"
      using cl PageObjectRef True unfolding keepAliveClosed_def by blast
    hence "entriesFixed h (addPageObjectToKeepAlive k d h q p)"
      by (rule methodsFixEntriesD(5)[OF ih cl])
    thus ?thesis using PageObjectRef True by simp
  next
    case False
    thus ?thesis using PageObjectRef by (simp add: entriesFixed_Some sameEntries_refl)
  qed
qed (simp_all add: entriesFixed_Some sameEntries_refl)

lemma addPageObjectToKeepAlive_fixes:
  assumes "c \<in> fst ` set (keepAliveChildren (h p))"
  shows "entriesFixed h (addPageObjectToKeepAlive (Suc k) d h p c)"
  using assms by (simp add: entriesFixed_Some sameEntries_refl)

lemma setKeepAlive_fixes:
  assumes "keepAlive (h p)"
  shows "entriesFixed h (setKeepAlive (Suc k) d h p)"
  using assms by (simp add: entriesFixed_Some sameEntries_refl)

lemma connectChildObserver_fixes:
  assumes ih: "methodsFixEntries k d" and cl: "keepAliveClosed h"
  shows "entriesFixed h (connectChildObserver (Suc k) d h p c)"
proof (cases "domNode (h p) = None")
  case True
  thus ?thesis by (simp add: entriesFixed_Some sameEntries_refl)
next
  case False
  have "entriesFixed h
          (andThen (getParentNode k d h c)
             (\<lambda>h1 parentNode. andThen (observe h1 p c parentNode)
               (\<lambda>h2 u. andThen (getDomNode k d h2 c) (\<lambda>h3 n. Some (h3, [], ())))))"
  proof (rule entriesFixed_andThen[OF methodsFixEntriesD(3)[OF ih cl]])
    fix h1 :: store and parentNode :: "parentNode option"
    assume s1: "sameEntries h h1"
    have cl1: "keepAliveClosed h1" by (rule keepAliveClosed_same[OF cl s1])
    show "entriesFixed h1 (andThen (observe h1 p c parentNode)
               (\<lambda>h2 u. andThen (getDomNode k d h2 c) (\<lambda>h3 n. Some (h3, [], ()))))"
    proof (rule entriesFixed_andThen[OF entriesFixed_observe])
      fix h2 :: store and u :: unit
      assume s2: "sameEntries h1 h2"
      have cl2: "keepAliveClosed h2" by (rule keepAliveClosed_same[OF cl1 s2])
      show "entriesFixed h2 (andThen (getDomNode k d h2 c) (\<lambda>h3 n. Some (h3, [], ())))"
        by (rule entriesFixed_andThen[OF methodsFixEntriesD(1)[OF ih cl2]])
           (simp add: entriesFixed_Some sameEntries_refl)
    qed
  qed
  thus ?thesis using False by simp
qed

lemma connectAllChildrenObservers_fixes:
  assumes ih: "methodsFixEntries k d" and cl: "keepAliveClosed h"
  shows "entriesFixed h (connectAllChildrenObservers (Suc k) d h p)"
proof (cases "domNode (h p) \<noteq> None \<and> keepAliveChildren (h p) \<noteq> []")
  case False
  thus ?thesis by (auto simp: entriesFixed_Some sameEntries_refl)
next
  case True
  have "entriesFixed h
          (foldl (\<lambda>m pageObject. andThen m (\<lambda>h1 u. connectChildObserver k d h1 p pageObject))
             (Some (h, [Logged VERBOSE ''Reconnecting observers''], ()))
             (map fst (keepAliveChildren (h p))))"
  proof (rule entriesFixed_foldl[OF entriesFixed_Some[OF sameEntries_refl]])
    fix h1 :: store and c :: nat
    assume s1: "sameEntries h h1"
    have cl1: "keepAliveClosed h1" by (rule keepAliveClosed_same[OF cl s1])
    show "entriesFixed h1 (connectChildObserver k d h1 p c)"
      by (rule methodsFixEntriesD(8)[OF ih cl1])
  qed
  thus ?thesis using True by simp
qed

lemma refreshDomNode_fixes:
  assumes ih: "methodsFixEntries k d" and cl: "keepAliveClosed h"
  shows "entriesFixed h (refreshDomNode (Suc k) d h p)"
  unfolding refreshDomNode.simps
proof (rule entriesFixed_andThen[OF methodsFixEntriesD(3)[OF ih cl]])
  fix h1 :: store and parentNode :: "parentNode option"
  assume s1: "sameEntries h h1"
  define node where "node = (case parentNode of None \<Rightarrow> None | Some r \<Rightarrow> firstMatch d r (selectors (h1 p)))"
  define h2 where "h2 = h1(p := (h1 p)\<lparr>domNode := node\<rparr>)"
  have s2: "sameEntries h1 h2" unfolding h2_def by (rule sameEntries_domNode)
  have cl1: "keepAliveClosed h1" by (rule keepAliveClosed_same[OF cl s1])
  have cl2: "keepAliveClosed h2" by (rule keepAliveClosed_same[OF cl1 s2])
  have rest: "entriesFixed h2
          (andThen (ensureKeepAliveWhenNeeded k d h2 p)
             (\<lambda>h4 u. andThen (connectAllChildrenObservers k d h4 p)
               (\<lambda>h5 u. Some (h5,
                  (case onDomNodeRefreshedCallback (h5 p) of
                     None \<Rightarrow> []
                   | Some callback \<Rightarrow> [Called callback]),
                  ()))))"
  proof (rule entriesFixed_andThen[OF methodsFixEntriesD(4)[OF ih cl2]])
    fix h4 :: store and u :: unit
    assume s4: "sameEntries h2 h4"
    have cl4: "keepAliveClosed h4" by (rule keepAliveClosed_same[OF cl2 s4])
    show "entriesFixed h4 (andThen (connectAllChildrenObservers k d h4 p)
               (\<lambda>h5 u. Some (h5,
                  (case onDomNodeRefreshedCallback (h5 p) of
                     None \<Rightarrow> []
                   | Some callback \<Rightarrow> [Called callback]),
                  ())))"
      by (rule entriesFixed_andThen[OF methodsFixEntriesD(7)[OF ih cl4]])
         (simp add: entriesFixed_Some sameEntries_refl)
  qed
  have "entriesFixed h1
          (if node \<noteq> None then
             andThen (Some (h2, [Logged DEBUG ''Object refreshed''], ()))
               (\<lambda>h3 u. andThen (ensureKeepAliveWhenNeeded k d h3 p)
                 (\<lambda>h4 u. andThen (connectAllChildrenObservers k d h4 p)
                   (\<lambda>h5 u. Some (h5,
                      (case onDomNodeRefreshedCallback (h5 p) of
                         None \<Rightarrow> []
                       | Some callback \<Rightarrow> [Called callback]),
                      ()))))
           else Some (h2, [], ()))"
  proof (cases "node \<noteq> None")
    case True
    have "entriesFixed h2
            (andThen (Some (h2, [Logged DEBUG ''Object refreshed''], ()))
               (\<lambda>h3 u. andThen (ensureKeepAliveWhenNeeded k d h3 p)
                 (\<lambda>h4 u. andThen (connectAllChildrenObservers k d h4 p)
                   (\<lambda>h5 u. Some (h5,
                      (case onDomNodeRefreshedCallback (h5 p) of
                         None \<Rightarrow> []
                       | Some callback \<Rightarrow> [Called callback]),
                      ())))))"
      using rest by (cases "andThen (ensureKeepAliveWhenNeeded k d h2 p)
             (\<lambda>h4 u. andThen (connectAllChildrenObservers k d h4 p)
               (\<lambda>h5 u. Some (h5,
                  (case onDomNodeRefreshedCallback (h5 p) of
                     None \<Rightarrow> []
                   | Some callback \<Rightarrow> [Called callback]),
                  ())))") (auto simp: andThen_def entriesFixed_def)
    thus ?thesis using True s2 by (simp add: entriesFixed_rebase)
  next
    case False
    thus ?thesis using s2 by (simp add: entriesFixed_Some)
  qed
  thus "entriesFixed h1
          (let node = (case parentNode of None \<Rightarrow> None | Some r \<Rightarrow> firstMatch d r (selectors (h1 p)));
               h2 = h1(p := (h1 p)\<lparr>domNode := node\<rparr>)
           in if node \<noteq> None then
                andThen (Some (h2, [Logged DEBUG ''Object refreshed''], ()))
                  (\<lambda>h3 u. andThen (ensureKeepAliveWhenNeeded k d h3 p)
                    (\<lambda>h4 u. andThen (connectAllChildrenObservers k d h4 p)
                      (\<lambda>h5 u. Some (h5,
                         (case onDomNodeRefreshedCallback (h5 p) of
                            None \<Rightarrow> []
                          | Some callback \<Rightarrow> [Called callback]),
                         ()))))
              else Some (h2, [], ()))"
    unfolding node_def h2_def Let_def .
qed

lemma methods_fix_entries: "methodsFixEntries k d"
proof (induction k)
  case 0
  show ?case by (simp add: methodsFixEntries_def entriesFixed_None)
next
  case (Suc k)
  show ?case
    unfolding methodsFixEntries_def
    by (intro allI impI conjI getDomNode_fixes[OF Suc] refreshDomNode_fixes[OF Suc]
          getParentNode_fixes[OF Suc] ensureKeepAliveWhenNeeded_fixes[OF Suc]
          addPageObjectToKeepAlive_fixes setKeepAlive_fixes
          connectAllChildrenObservers_fixes[OF Suc] connectChildObserver_fixes[OF Suc])
qed

lemma getDomNode_fixes_entries:
  assumes "keepAliveClosed h" "getDomNode k d h p = Some (h', e, r)"
  shows "sameEntries h h'"
  using methodsFixEntriesD(1)[OF methods_fix_entries assms(1), of k d p] assms(2)
  by (simp add: entriesFixed_def)

subsection \<open>Keeping a resolver alive\<close>

lemma keepAliveClosed_new: "keepAliveClosed (\<lambda>p. newPageObject (parentOf p) (sels p) (rooted p))"
  by (simp add: keepAliveClosed_def newPageObject_def)

lemma keepAliveClosedI:
  assumes "\<forall>c q. c \<noteq> p \<and> parent (h c) = PageObjectRef q \<and> keepAlive (h c)
                 \<longrightarrow> c \<in> fst ` set (keepAliveChildren (h q))"
    and "\<And>q. parent (h p) = PageObjectRef q \<Longrightarrow> keepAlive (h p)
                 \<Longrightarrow> p \<in> fst ` set (keepAliveChildren (h q))"
  shows "keepAliveClosed h"
  unfolding keepAliveClosed_def
proof (intro allI impI)
  fix c q
  assume a: "parent (h c) = PageObjectRef q \<and> keepAlive (h c)"
  show "c \<in> fst ` set (keepAliveChildren (h q))"
  proof (cases "c = p")
    case True
    thus ?thesis using a assms(2) by simp
  next
    case False
    thus ?thesis using a assms(1) by simp
  qed
qed

lemma keepAlive_steps_close:
  "(\<forall>h p h' e r. keepAliveClosed h \<and> setKeepAlive k d h p = Some (h', e, r) \<longrightarrow> keepAliveClosed h')
   \<and> (\<forall>h p h' e r.
         (\<forall>c q. c \<noteq> p \<and> parent (h c) = PageObjectRef q \<and> keepAlive (h c)
                 \<longrightarrow> c \<in> fst ` set (keepAliveChildren (h q)))
         \<and> ensureKeepAliveWhenNeeded k d h p = Some (h', e, r) \<longrightarrow> keepAliveClosed h')
   \<and> (\<forall>h p pageObject h' e r.
         (\<forall>c q. c \<noteq> pageObject \<and> parent (h c) = PageObjectRef q \<and> keepAlive (h c)
                 \<longrightarrow> c \<in> fst ` set (keepAliveChildren (h q)))
         \<and> parent (h pageObject) = PageObjectRef p
         \<and> addPageObjectToKeepAlive k d h p pageObject = Some (h', e, r) \<longrightarrow> keepAliveClosed h')"
proof (induction k)
  case 0
  show ?case by simp
next
  case (Suc k)
  have ihSet: "keepAliveClosed h'"
    if "keepAliveClosed h" "setKeepAlive k d h p = Some (h', e, r)" for h p h' e r
    using Suc that by blast
  have ihEnsure: "keepAliveClosed h'"
    if "\<forall>c q. c \<noteq> p \<and> parent (h c) = PageObjectRef q \<and> keepAlive (h c)
                 \<longrightarrow> c \<in> fst ` set (keepAliveChildren (h q))"
       "ensureKeepAliveWhenNeeded k d h p = Some (h', e, r)" for h p h' e r
    using Suc that by blast
  have ihAdd: "keepAliveClosed h'"
    if "\<forall>c q. c \<noteq> pageObject \<and> parent (h c) = PageObjectRef q \<and> keepAlive (h c)
                 \<longrightarrow> c \<in> fst ` set (keepAliveChildren (h q))"
       "parent (h pageObject) = PageObjectRef p"
       "addPageObjectToKeepAlive k d h p pageObject = Some (h', e, r)" for h p pageObject h' e r
    using Suc that by blast
  have setStep: "keepAliveClosed h'"
    if cl: "keepAliveClosed h" and run: "setKeepAlive (Suc k) d h p = Some (h', e, r)" for h p h' e r
  proof (cases "keepAlive (h p)")
    case True
    thus ?thesis using run cl by simp
  next
    case False
    let ?h1 = "h(p := (h p)\<lparr>keepAlive := True\<rparr>)"
    have "\<forall>c q. c \<noteq> p \<and> parent (?h1 c) = PageObjectRef q \<and> keepAlive (?h1 c)
                 \<longrightarrow> c \<in> fst ` set (keepAliveChildren (?h1 q))"
      using cl unfolding keepAliveClosed_def by auto
    moreover have "ensureKeepAliveWhenNeeded k d ?h1 p = Some (h', e, r)"
      using run False by simp
    ultimately show ?thesis by (rule ihEnsure)
  qed
  have ensureStep: "keepAliveClosed h'"
    if cl: "\<forall>c q. c \<noteq> p \<and> parent (h c) = PageObjectRef q \<and> keepAlive (h c)
                 \<longrightarrow> c \<in> fst ` set (keepAliveChildren (h q))"
      and run: "ensureKeepAliveWhenNeeded (Suc k) d h p = Some (h', e, r)" for h p h' e r
  proof (cases "parent (h p)")
    case (PageObjectRef q)
    show ?thesis
    proof (cases "keepAlive (h p)")
      case True
      have "addPageObjectToKeepAlive k d h q p = Some (h', e, r)"
        using run PageObjectRef True by simp
      thus ?thesis by (rule ihAdd[OF cl PageObjectRef])
    next
      case False
      hence "h' = h" using run PageObjectRef by simp
      moreover have "keepAliveClosed h"
        by (rule keepAliveClosedI[OF cl]) (simp add: False)
      ultimately show ?thesis by simp
    qed
  next
    case DocumentRef
    hence "h' = h" using run by simp
    moreover have "keepAliveClosed h"
      by (rule keepAliveClosedI[OF cl]) (simp add: DocumentRef)
    ultimately show ?thesis by simp
  next
    case (ElementRef n)
    hence "h' = h" using run by simp
    moreover have "keepAliveClosed h"
      by (rule keepAliveClosedI[OF cl]) (simp add: ElementRef)
    ultimately show ?thesis by simp
  qed
  have addStep: "keepAliveClosed h'"
    if cl: "\<forall>c q. c \<noteq> pageObject \<and> parent (h c) = PageObjectRef q \<and> keepAlive (h c)
                 \<longrightarrow> c \<in> fst ` set (keepAliveChildren (h q))"
      and par: "parent (h pageObject) = PageObjectRef p"
      and run: "addPageObjectToKeepAlive (Suc k) d h p pageObject = Some (h', e, r)"
    for h p pageObject h' e r
  proof (cases "pageObject \<in> fst ` set (keepAliveChildren (h p))")
    case True
    hence "h' = h" using run by simp
    moreover have "keepAliveClosed h"
      by (rule keepAliveClosedI[OF cl]) (use True par in simp)
    ultimately show ?thesis by simp
  next
    case False
    let ?h1 = "h(p := (h p)\<lparr>keepAliveChildren := keepAliveChildren (h p) @ [(pageObject, [])]\<rparr>)"
    have cl1: "keepAliveClosed ?h1"
      unfolding keepAliveClosed_def
    proof (intro allI impI)
      fix c q
      assume a: "parent (?h1 c) = PageObjectRef q \<and> keepAlive (?h1 c)"
      hence a': "parent (h c) = PageObjectRef q \<and> keepAlive (h c)" by (simp split: if_splits)
      show "c \<in> fst ` set (keepAliveChildren (?h1 q))"
      proof (cases "c = pageObject")
        case True
        hence "q = p" using a' par by simp
        thus ?thesis using True by simp
      next
        case False
        hence "c \<in> fst ` set (keepAliveChildren (h q))" using a' cl by blast
        thus ?thesis by auto
      qed
    qed
    from run False
    have run': "andThen (setKeepAlive k d ?h1 p) (\<lambda>h1 u. connectChildObserver k d h1 p pageObject)
                 = Some (h', e, r)"
      by simp
    then obtain h2 e2 u where s: "setKeepAlive k d ?h1 p = Some (h2, e2, u)"
      by (cases "setKeepAlive k d ?h1 p") (auto simp: andThen_def)
    then obtain e3 where c: "connectChildObserver k d h2 p pageObject = Some (h', e3, r)"
      using run' by (cases "connectChildObserver k d h2 p pageObject") (auto simp: andThen_def)
    have cl2: "keepAliveClosed h2" by (rule ihSet[OF cl1 s])
    have "sameEntries h2 h'"
      using methodsFixEntriesD(8)[OF methods_fix_entries cl2, of k d p pageObject] c
      by (simp add: entriesFixed_def)
    thus ?thesis by (rule keepAliveClosed_same[OF cl2])
  qed
  show ?case
    by (intro conjI allI impI; elim conjE) (erule (1) setStep, erule (1) ensureStep, erule (2) addStep)
qed

lemma watchChanges_keeps_closed:
  assumes "keepAliveClosed h" "watchChanges k d h p refreshed removed = Some (h', e, r)"
  shows "keepAliveClosed h'"
proof -
  obtain h1 e1 u where s: "setKeepAlive k d h p = Some (h1, e1, u)"
    using assms(2) by (cases "setKeepAlive k d h p") (auto simp: watchChanges_def andThen_def)
  have cl1: "keepAliveClosed h1"
    using keepAlive_steps_close[of k d] assms(1) s by blast
  have "h' = h1(p := (h1 p)\<lparr>onDomNodeRefreshedCallback := Some refreshed,
                                onDomNodeRemovedCallback := removed\<rparr>)"
    using assms(2) s by (simp add: watchChanges_def andThen_def)
  thus ?thesis using cl1 by (simp add: keepAliveClosed_def)
qed

lemma getDomNode_keeps_closed:
  assumes "keepAliveClosed h" "getDomNode k d h p = Some (h', e, r)"
  shows "keepAliveClosed h'"
  by (rule keepAliveClosed_same[OF assms(1) getDomNode_fixes_entries[OF assms]])

subsection \<open>The resolvers of the program\<close>

lemma PageObjectManager_ok:
  "storeOk 8 d (PageObjectManager v)" "keepAliveClosed (PageObjectManager v)"
proof -
  have "p < 8 \<longleftrightarrow> p = 0 \<or> p = 1 \<or> p = 2 \<or> p = 3 \<or> p = 4 \<or> p = 5 \<or> p = 6 \<or> p = 7" for p :: nat
    by arith
  thus "storeOk 8 d (PageObjectManager v)"
    by (auto simp: storeOk_def PageObjectManager_def newPageObject_def)
  show "keepAliveClosed (PageObjectManager v)"
    by (simp add: keepAliveClosed_def PageObjectManager_def newPageObject_def)
qed

lemma watchChanges_returns:
  assumes "domOk d" "storeOk N d h" "keepAliveClosed h" "p < N" "callDepth N (Suc N) 0 0 \<le> k"
  shows "\<exists>h' e. watchChanges k d h p refreshed removed = Some (h', e, ())
           \<and> storeOk N d h' \<and> keepAliveClosed h'"
proof -
  have "unresolved N d h < Suc N" using unresolved_le[of N d h] by simp
  then have "callDepth N (unresolved N d h) p 8 < callDepth N (Suc N) 0 0"
    using assms(4) by (intro callDepth_less_unresolved) auto
  with assms(5) have "callDepth N (unresolved N d h) p 8 < k" by linarith
  with methods_return[OF assms(1), of N k] assms(2,4)
  have "returnsOk N d h (setKeepAlive k d h p) (\<lambda>h' u. True)"
    by (intro setKeepAliveReturnsD) auto
  then obtain h1 e1 u where s: "setKeepAlive k d h p = Some (h1, e1, u)" and ok1: "storeOk N d h1"
    unfolding returnsOk_def by blast
  let ?h' = "h1(p := (h1 p)\<lparr>onDomNodeRefreshedCallback := Some refreshed,
                                 onDomNodeRemovedCallback := removed\<rparr>)"
  have run: "watchChanges k d h p refreshed removed = Some (?h', e1, ())"
    using s by (simp add: watchChanges_def andThen_def)
  have "storeOk N d ?h'"
    by (rule storeOk_same_shape[OF ok1]) simp_all
  moreover have "keepAliveClosed ?h'"
    by (rule watchChanges_keeps_closed[OF assms(3) run])
  ultimately show ?thesis using run by blast
qed

subsection \<open>The cached node after a call\<close>

lemma example_run:
  "map_option (\<lambda>(h', eff, r). (eff, r, domNode (h' 0), domNode (h' 1), keepAliveChildren (h' 0)))
     (getDomNode 12 exampleDom exampleStore 0)
   = Some ([Logged DEBUG ''Stale object in cache. Invalidating...'',
            Logged VERBOSE ''Disconnecting observers'',
            ObserverDisconnected 0 1,
            Called 5,
            Logged DEBUG ''Object refreshed'',
            Logged VERBOSE ''Reconnecting observers'',
            ObserverObserves 0 1 (ShadowRootOf 11),
            Logged DEBUG ''Stale object in cache. Invalidating...'',
            Logged DEBUG ''Object refreshed'',
            Called 3],
           Some 11, Some 11, Some 21, [(1, [ShadowRootOf 11])])"
  by code_simp

lemma example_domOk: "domOk exampleDom"
  by (auto simp: domOk_def exampleDom_def split: if_splits)

lemma example_storeOk: "storeOk 2 exampleDom exampleStore"
  by (auto simp: storeOk_def exampleStore_def exampleDom_def newPageObject_def less_Suc_eq numeral_2_eq_2)

lemma example_keepAliveClosed: "keepAliveClosed exampleStore"
  by (auto simp: keepAliveClosed_def exampleStore_def newPageObject_def split: if_splits)

lemma invalidate_effects:
  "snd (invalidateDomNode h p)
   = (if keepAliveChildren (h p) = [] then []
      else Logged VERBOSE ''Disconnecting observers''
             # map (\<lambda>entry. ObserverDisconnected p (fst entry)) (keepAliveChildren (h p)))
     @ (case onDomNodeRemovedCallback (h p) of None \<Rightarrow> [] | Some callback \<Rightarrow> [Called callback])"
  by (simp add: invalidateDomNode_def disconnectAllChildrenObservers_def Let_def)

lemma invalidate_store:
  "domNode (fst (invalidateDomNode h p) p) = None"
  "keepAliveChildren (fst (invalidateDomNode h p) p)
     = map (\<lambda>entry. (fst entry, [])) (keepAliveChildren (h p))"
  by (simp_all add: invalidateDomNode_def disconnectAllChildrenObservers_def Let_def)

text \<open>
  Claim C2. A resolver whose cached node is no longer connected does not return the stale
  reference from \<open>getDomNode\<close>. In a well-formed document and store, with enough depth of
  calls, the call returns, and with every deeper bound it returns the same; the result is
  the cached node after the call, and it is empty or connected. When the cached node was
  there and disconnected, the result is not that node, and the call has first logged the
  stale node and invalidated the cache: every observer this resolver holds for its children
  was disconnected and observes nothing, the \<open>removed\<close> callback was called if there is
  one, the cached node was emptied; what follows is the call of \<open>getDomNode\<close> on the
  store invalidated so, whose result is returned. The children kept in the maps are left as
  they were, so each \<open>forEach\<close> over them ran over all their entries.
\<close>

theorem stale_node_is_invalidated_then_resolved_again:
  assumes "domOk d" and "storeOk N d h" and "keepAliveClosed h" and "p < N"
    and "callDepth N (Suc N) 0 0 \<le> k"
  shows "\<exists>h' eff r.
           (\<forall>j. getDomNode (Suc k + j) d h p = Some (h', eff, r))
         \<and> r = domNode (h' p)
         \<and> (\<forall>m. r = Some m \<longrightarrow> isConnected d m)
         \<and> sameEntries h h'
         \<and> (\<forall>n. domNode (h p) = Some n \<and> \<not> isConnected d n \<longrightarrow>
               r \<noteq> Some n
             \<and> (\<exists>eff'. eff = Logged DEBUG ''Stale object in cache. Invalidating...''
                              # snd (invalidateDomNode h p) @ eff'
                     \<and> getDomNode k d (fst (invalidateDomNode h p)) p = Some (h', eff', r))
             \<and> snd (invalidateDomNode h p)
                 = (if keepAliveChildren (h p) = [] then []
                    else Logged VERBOSE ''Disconnecting observers''
                           # map (\<lambda>entry. ObserverDisconnected p (fst entry)) (keepAliveChildren (h p)))
                   @ (case onDomNodeRemovedCallback (h p) of
                        None \<Rightarrow> []
                      | Some callback \<Rightarrow> [Called callback])
             \<and> domNode (fst (invalidateDomNode h p) p) = None
             \<and> keepAliveChildren (fst (invalidateDomNode h p) p)
                 = map (\<lambda>entry. (fst entry, [])) (keepAliveChildren (h p)))"
proof -
  have deep: "callDepth N (Suc N) 0 0 \<le> Suc k" using assms(5) by simp
  from getDomNode_returns[OF assms(1,2,4) deep]
  obtain h' eff r where run: "getDomNode (Suc k) d h p = Some (h', eff, r)"
    and r: "r = domNode (h' p)" and res: "r = None \<or> resolved d h' p"
    unfolding returnsOk_def by blast
  have all: "\<forall>j. getDomNode (Suc k + j) d h p = Some (h', eff, r)"
    using getDomNode_deeper[OF run] by blast
  have conn: "\<forall>m. r = Some m \<longrightarrow> isConnected d m"
    using res r by (auto simp: resolved_def)
  have same: "sameEntries h h'"
    by (rule getDomNode_fixes_entries[OF assms(3) run])
  have stale: "r \<noteq> Some n
      \<and> (\<exists>eff'. eff = Logged DEBUG ''Stale object in cache. Invalidating...''
                        # snd (invalidateDomNode h p) @ eff'
               \<and> getDomNode k d (fst (invalidateDomNode h p)) p = Some (h', eff', r))"
    if n: "domNode (h p) = Some n" "\<not> isConnected d n" for n
  proof -
    let ?h1 = "fst (invalidateDomNode h p)"
    have st: "isStale d (h p)" using n by (simp add: isStale_def)
    have "r \<noteq> Some n" using conn n(2) by blast
    moreover
    obtain x where inner: "getDomNode k d ?h1 p = Some x"
      using run n st by (cases "getDomNode k d ?h1 p") (simp_all add: andThen_def)
    obtain h2 eff2 r2 where x: "x = (h2, eff2, r2)" by (cases x) auto
    have step: "getDomNode (Suc k) d h p
            = Some (h2, Logged DEBUG ''Stale object in cache. Invalidating...''
                          # snd (invalidateDomNode h p) @ eff2, domNode (h2 p))"
      using n st inner x by (simp add: andThen_def)
    have "Some (h', eff, r)
            = Some (h2, Logged DEBUG ''Stale object in cache. Invalidating...''
                          # snd (invalidateDomNode h p) @ eff2, domNode (h2 p))"
      by (rule trans[OF run[symmetric] step])
    hence "h' = h2" "eff = Logged DEBUG ''Stale object in cache. Invalidating...''
                          # snd (invalidateDomNode h p) @ eff2" "r = domNode (h2 p)"
      by simp_all
    moreover
    have "\<not> resolved d h p" using n by (simp add: resolved_def)
    hence "storeOk N d ?h1" by (rule invalidate_ok(1)[OF assms(2)])
    from getDomNode_returns[OF assms(1) this assms(4,5)] inner x
    have "r2 = domNode (h2 p)" unfolding returnsOk_def by auto
    ultimately show ?thesis using inner x by auto
  qed
  have stale_all:
    "\<forall>n. domNode (h p) = Some n \<and> \<not> isConnected d n \<longrightarrow>
               r \<noteq> Some n
             \<and> (\<exists>eff'. eff = Logged DEBUG ''Stale object in cache. Invalidating...''
                              # snd (invalidateDomNode h p) @ eff'
                     \<and> getDomNode k d (fst (invalidateDomNode h p)) p = Some (h', eff', r))
             \<and> snd (invalidateDomNode h p)
                 = (if keepAliveChildren (h p) = [] then []
                    else Logged VERBOSE ''Disconnecting observers''
                           # map (\<lambda>entry. ObserverDisconnected p (fst entry)) (keepAliveChildren (h p)))
                   @ (case onDomNodeRemovedCallback (h p) of
                        None \<Rightarrow> []
                      | Some callback \<Rightarrow> [Called callback])
             \<and> domNode (fst (invalidateDomNode h p) p) = None
             \<and> keepAliveChildren (fst (invalidateDomNode h p) p)
                 = map (\<lambda>entry. (fst entry, [])) (keepAliveChildren (h p))"
  proof (intro allI impI)
    fix n
    assume a: "domNode (h p) = Some n \<and> \<not> isConnected d n"
    have s: "r \<noteq> Some n
      \<and> (\<exists>eff'. eff = Logged DEBUG ''Stale object in cache. Invalidating...''
                        # snd (invalidateDomNode h p) @ eff'
               \<and> getDomNode k d (fst (invalidateDomNode h p)) p = Some (h', eff', r))"
      using a by (intro stale) simp_all
    show "r \<noteq> Some n
             \<and> (\<exists>eff'. eff = Logged DEBUG ''Stale object in cache. Invalidating...''
                              # snd (invalidateDomNode h p) @ eff'
                     \<and> getDomNode k d (fst (invalidateDomNode h p)) p = Some (h', eff', r))
             \<and> snd (invalidateDomNode h p)
                 = (if keepAliveChildren (h p) = [] then []
                    else Logged VERBOSE ''Disconnecting observers''
                           # map (\<lambda>entry. ObserverDisconnected p (fst entry)) (keepAliveChildren (h p)))
                   @ (case onDomNodeRemovedCallback (h p) of
                        None \<Rightarrow> []
                      | Some callback \<Rightarrow> [Called callback])
             \<and> domNode (fst (invalidateDomNode h p) p) = None
             \<and> keepAliveChildren (fst (invalidateDomNode h p) p)
                 = map (\<lambda>entry. (fst entry, [])) (keepAliveChildren (h p))"
      by (intro conjI conjunct1[OF s] conjunct2[OF s] invalidate_effects invalidate_store)
  qed
  show ?thesis
    by (rule exI[of _ h'], rule exI[of _ eff], rule exI[of _ r])
       (intro conjI all r conn same stale_all)
qed

theorem stale_node_is_invalidated_then_resolved_again_witness:
  "domOk exampleDom \<and> storeOk 2 exampleDom exampleStore \<and> keepAliveClosed exampleStore
   \<and> callDepth 2 (Suc 2) 0 0 \<le> 90
   \<and> domNode (exampleStore 0) = Some 10 \<and> \<not> isConnected exampleDom 10
   \<and> (\<exists>h' eff'.
         getDomNode 91 exampleDom exampleStore 0
           = Some (h',
                   [Logged DEBUG ''Stale object in cache. Invalidating...'',
                    Logged VERBOSE ''Disconnecting observers'',
                    ObserverDisconnected 0 1,
                    Called 5,
                    Logged DEBUG ''Object refreshed'',
                    Logged VERBOSE ''Reconnecting observers'',
                    ObserverObserves 0 1 (ShadowRootOf 11),
                    Logged DEBUG ''Stale object in cache. Invalidating...'',
                    Logged DEBUG ''Object refreshed'',
                    Called 3],
                   Some 11)
       \<and> getDomNode 90 exampleDom (fst (invalidateDomNode exampleStore 0)) 0 = Some (h', eff', Some 11)
       \<and> domNode (h' 0) = Some 11 \<and> domNode (h' 1) = Some 21
       \<and> sameEntries exampleStore h')
   \<and> isConnected exampleDom 11 \<and> isConnected exampleDom 21"
proof -
  have depth: "callDepth 2 (Suc 2) 0 0 \<le> 90" by (simp add: callDepth_def)
  have cached: "domNode (exampleStore 0) = Some 10" "\<not> isConnected exampleDom 10"
    "isConnected exampleDom 11" "isConnected exampleDom 21"
    by (simp_all add: exampleStore_def exampleDom_def)
  have pos: "(0::nat) < 2" by simp
  from stale_node_is_invalidated_then_resolved_again
         [OF example_domOk example_storeOk example_keepAliveClosed pos depth]
  obtain h' eff r where
    all: "\<forall>j. getDomNode (Suc 90 + j) exampleDom exampleStore 0 = Some (h', eff, r)"
    and same: "sameEntries exampleStore h'"
    and stale: "\<forall>n. domNode (exampleStore 0) = Some n \<and> \<not> isConnected exampleDom n \<longrightarrow>
               r \<noteq> Some n
             \<and> (\<exists>eff'. eff = Logged DEBUG ''Stale object in cache. Invalidating...''
                              # snd (invalidateDomNode exampleStore 0) @ eff'
                     \<and> getDomNode 90 exampleDom (fst (invalidateDomNode exampleStore 0)) 0 = Some (h', eff', r))
             \<and> snd (invalidateDomNode exampleStore 0)
                 = (if keepAliveChildren (exampleStore 0) = [] then []
                    else Logged VERBOSE ''Disconnecting observers''
                           # map (\<lambda>entry. ObserverDisconnected 0 (fst entry)) (keepAliveChildren (exampleStore 0)))
                   @ (case onDomNodeRemovedCallback (exampleStore 0) of
                        None \<Rightarrow> []
                      | Some callback \<Rightarrow> [Called callback])
             \<and> domNode (fst (invalidateDomNode exampleStore 0) 0) = None
             \<and> keepAliveChildren (fst (invalidateDomNode exampleStore 0) 0)
                 = map (\<lambda>entry. (fst entry, [])) (keepAliveChildren (exampleStore 0))"
    by (elim exE conjE) (rule that, assumption+)
  have run: "getDomNode 91 exampleDom exampleStore 0 = Some (h', eff, r)"
    using all[rule_format, of 0] by simp
  obtain x where short: "getDomNode 12 exampleDom exampleStore 0 = Some x"
    using example_run by (cases "getDomNode 12 exampleDom exampleStore 0") simp_all
  have "getDomNode (12 + 79) exampleDom exampleStore 0 = Some x"
    by (rule getDomNode_deeper[OF short])
  hence x: "x = (h', eff, r)" using run by simp
  have vals: "eff = [Logged DEBUG ''Stale object in cache. Invalidating...'',
                    Logged VERBOSE ''Disconnecting observers'',
                    ObserverDisconnected 0 1,
                    Called 5,
                    Logged DEBUG ''Object refreshed'',
                    Logged VERBOSE ''Reconnecting observers'',
                    ObserverObserves 0 1 (ShadowRootOf 11),
                    Logged DEBUG ''Stale object in cache. Invalidating...'',
                    Logged DEBUG ''Object refreshed'',
                    Called 3]"
      "r = Some 11" "domNode (h' 0) = Some 11" "domNode (h' 1) = Some 21"
    using example_run[unfolded short x] by simp_all
  have "\<exists>eff'. eff = Logged DEBUG ''Stale object in cache. Invalidating...''
                              # snd (invalidateDomNode exampleStore 0) @ eff'
                     \<and> getDomNode 90 exampleDom (fst (invalidateDomNode exampleStore 0)) 0 = Some (h', eff', r)"
    by (rule stale[rule_format, OF conjI[OF cached(1) cached(2)], THEN conjunct2, THEN conjunct1])
  then obtain eff' where
    inner: "getDomNode 90 exampleDom (fst (invalidateDomNode exampleStore 0)) 0 = Some (h', eff', r)"
    by (elim exE conjE) (rule that)
  have run': "getDomNode 91 exampleDom exampleStore 0
           = Some (h', [Logged DEBUG ''Stale object in cache. Invalidating...'',
                    Logged VERBOSE ''Disconnecting observers'',
                    ObserverDisconnected 0 1,
                    Called 5,
                    Logged DEBUG ''Object refreshed'',
                    Logged VERBOSE ''Reconnecting observers'',
                    ObserverObserves 0 1 (ShadowRootOf 11),
                    Logged DEBUG ''Stale object in cache. Invalidating...'',
                    Logged DEBUG ''Object refreshed'',
                    Called 3], Some 11)"
    by (rule run[unfolded vals(1,2)])
  have inner': "getDomNode 90 exampleDom (fst (invalidateDomNode exampleStore 0)) 0 = Some (h', eff', Some 11)"
    by (rule inner[unfolded vals(2)])
  have ex: "\<exists>h' eff'.
         getDomNode 91 exampleDom exampleStore 0
           = Some (h', [Logged DEBUG ''Stale object in cache. Invalidating...'',
                    Logged VERBOSE ''Disconnecting observers'',
                    ObserverDisconnected 0 1,
                    Called 5,
                    Logged DEBUG ''Object refreshed'',
                    Logged VERBOSE ''Reconnecting observers'',
                    ObserverObserves 0 1 (ShadowRootOf 11),
                    Logged DEBUG ''Stale object in cache. Invalidating...'',
                    Logged DEBUG ''Object refreshed'',
                    Called 3], Some 11)
       \<and> getDomNode 90 exampleDom (fst (invalidateDomNode exampleStore 0)) 0 = Some (h', eff', Some 11)
       \<and> domNode (h' 0) = Some 11 \<and> domNode (h' 1) = Some 21
       \<and> sameEntries exampleStore h'"
    by (intro exI[of _ h'] exI[of _ eff'] conjI run' inner' vals(3) vals(4) same)
  show ?thesis
    by (intro conjI example_domOk example_storeOk example_keepAliveClosed depth cached ex)
qed

end
